theory Spec2Isabelle
  imports Complex_Main "HOL-Library.Multiset" "HOL-Library.Word"
begin

section \<open>Concurrent hash sets: the three variants, single-threaded\<close>

text \<open>
  The repository holds three hash sets with chaining over one interface
  (\<open>Add\<close>, \<open>Remove\<close>, \<open>Contains\<close>, \<open>Size\<close>): \<open>HashSetSequential\<close>,
  \<open>HashSetStriped\<close> and \<open>HashSetRefinable\<close>, and a command-line harness for the
  first. Each member function is embedded as a function on an explicit state.

  Conventions of the embedding.
  \<^item> The element type \<open>T\<close> is a type variable; \<open>std::hash<T>\<close>, which is not part
    of the repository, is a parameter \<open>hash\<close> of every function that uses it.
  \<^item> \<open>size_t\<close> values are natural numbers. A table of \<open>n\<close> buckets occupies
    \<open>n\<close> vector headers, so \<open>2 * n\<close> and \<open>4 * n\<close> stay far below \<open>2 ^ 64\<close>
    for every table that fits in memory, and the counter is decremented only after an
    element has been found.
  \<^item> A \<open>std::vector<std::vector<T>>\<close> is a list of lists; a \<open>std::mutex\<close> is
    a boolean, \<open>True\<close> when it is held. A blocking \<open>lock\<close> of a held mutex never
    returns in a single-threaded run: the operation's result is \<open>None\<close>.
  \<^item> \<open>hash % table_.size()\<close> is undefined for an empty table; the constructors
    assert a positive capacity, and the theorems are about tables of positive length.
\<close>

subsection \<open>Chains and rehashing\<close>

text \<open>
  The loop of \<open>Remove\<close>: walk the chain, erase the first element equal to \<open>elem\<close>.
  \<open>None\<close> when the loop ends without finding one.
\<close>

fun erase_first :: "'a \<Rightarrow> 'a list \<Rightarrow> 'a list option" where
  "erase_first elem [] = None"
| "erase_first elem (y # ys) =
     (if y = elem then Some ys else map_option ((#) y) (erase_first elem ys))"

text \<open>\<open>new_table[new_index].push_back(elem)\<close> with \<open>new_index = hash(elem) % new_capacity\<close>.\<close>

definition push_rehashed :: "('a \<Rightarrow> nat) \<Rightarrow> nat \<Rightarrow> 'a \<Rightarrow> 'a list list \<Rightarrow> 'a list list" where
  "push_rehashed hash new_capacity elem new_table =
     (let new_index = hash elem mod new_capacity
      in new_table[new_index := new_table ! new_index @ [elem]])"

text \<open>
  The nested loop shared by the three resize functions: a fresh table of
  \<open>new_capacity\<close> empty buckets, filled bucket by bucket, element by element.
\<close>

definition rehash :: "('a \<Rightarrow> nat) \<Rightarrow> nat \<Rightarrow> 'a list list \<Rightarrow> 'a list list" where
  "rehash hash new_capacity tbl =
     fold (\<lambda>bucket new_table. fold (push_rehashed hash new_capacity) bucket new_table)
       tbl (replicate new_capacity [])"

text \<open>Mutexes. \<open>lock_each\<close> is the loop that locks a whole vector of mutexes in order.\<close>

definition mutex_lock :: "bool list \<Rightarrow> nat \<Rightarrow> bool list option" where
  "mutex_lock ms i = (if ms ! i then None else Some (ms[i := True]))"

definition mutex_unlock :: "bool list \<Rightarrow> nat \<Rightarrow> bool list" where
  "mutex_unlock ms i = ms[i := False]"

fun lock_each :: "bool list \<Rightarrow> bool list option" where
  "lock_each [] = Some []"
| "lock_each (m # ms) = (if m then None else map_option ((#) True) (lock_each ms))"

definition unlock_each :: "bool list \<Rightarrow> bool list" where
  "unlock_each ms = map (\<lambda>_. False) ms"

subsection \<open>The data-model invariants\<close>

text \<open>
  The four invariants of the data model, for a table and its size counter: the
  capacity is not zero, every element sits in the bucket of its hash modulo the
  capacity, no bucket holds an element twice, and the counter is the number of entries.
\<close>

definition table_inv :: "('a \<Rightarrow> nat) \<Rightarrow> 'a list list \<Rightarrow> nat \<Rightarrow> bool" where
  "table_inv hash tbl n \<longleftrightarrow>
     0 < length tbl \<and>
     (\<forall>i < length tbl. \<forall>x \<in> set (tbl ! i). hash x mod length tbl = i) \<and>
     (\<forall>i < length tbl. distinct (tbl ! i)) \<and>
     n = sum_list (map length tbl)"

text \<open>The members of a table: the elements stored in some bucket.\<close>

definition members :: "'a list list \<Rightarrow> 'a set" where
  "members tbl = set (concat tbl)"

subsection \<open>HashSetSequential\<close>

record 'a HashSetSequential =
  seq_table :: "'a list list"
  seq_size :: nat

definition kLoadFactorThreshold :: nat where
  "kLoadFactorThreshold = 4"

text \<open>The constructor; \<open>None\<close> is the failed assertion.\<close>

definition Seq_new :: "nat \<Rightarrow> 'a HashSetSequential option" where
  "Seq_new initial_capacity =
     (if initial_capacity > 0
      then Some \<lparr>seq_table = replicate initial_capacity [], seq_size = 0\<rparr>
      else None)"

definition Seq_BucketIndex :: "('a \<Rightarrow> nat) \<Rightarrow> 'a HashSetSequential \<Rightarrow> 'a \<Rightarrow> nat" where
  "Seq_BucketIndex hash s elem = hash elem mod length (seq_table s)"

definition Seq_Resize :: "('a \<Rightarrow> nat) \<Rightarrow> 'a HashSetSequential \<Rightarrow> 'a HashSetSequential" where
  "Seq_Resize hash s =
     (let new_capacity = length (seq_table s) * 2;
          new_table = rehash hash new_capacity (seq_table s)
      in s\<lparr>seq_table := new_table\<rparr>)"

definition Seq_Add :: "('a \<Rightarrow> nat) \<Rightarrow> 'a HashSetSequential \<Rightarrow> 'a \<Rightarrow> bool \<times> 'a HashSetSequential" where
  "Seq_Add hash s elem =
     (let index = Seq_BucketIndex hash s elem;
          bucket = seq_table s ! index
      in if elem \<in> set bucket then (False, s)
         else
           let s1 = s\<lparr>seq_table := (seq_table s)[index := bucket @ [elem]],
                      seq_size := seq_size s + 1\<rparr>
           in if seq_size s1 > kLoadFactorThreshold * length (seq_table s1)
              then (True, Seq_Resize hash s1)
              else (True, s1))"

definition Seq_Remove :: "('a \<Rightarrow> nat) \<Rightarrow> 'a HashSetSequential \<Rightarrow> 'a \<Rightarrow> bool \<times> 'a HashSetSequential" where
  "Seq_Remove hash s elem =
     (let index = Seq_BucketIndex hash s elem;
          bucket = seq_table s ! index
      in case erase_first elem bucket of
           Some bucket' \<Rightarrow>
             (True, s\<lparr>seq_table := (seq_table s)[index := bucket'],
                      seq_size := seq_size s - 1\<rparr>)
         | None \<Rightarrow> (False, s))"

definition Seq_Contains :: "('a \<Rightarrow> nat) \<Rightarrow> 'a HashSetSequential \<Rightarrow> 'a \<Rightarrow> bool" where
  "Seq_Contains hash s elem =
     (let index = Seq_BucketIndex hash s elem;
          bucket = seq_table s ! index
      in elem \<in> set bucket)"

definition Seq_Size :: "'a HashSetSequential \<Rightarrow> nat" where
  "Seq_Size s = seq_size s"

definition Seq_inv :: "('a \<Rightarrow> nat) \<Rightarrow> 'a HashSetSequential \<Rightarrow> bool" where
  "Seq_inv hash s \<longleftrightarrow> table_inv hash (seq_table s) (seq_size s)"

subsection \<open>HashSetStriped\<close>

text \<open>
  \<open>locks_\<close> is the vector of mutexes made by the constructor, \<open>resize_mutex_\<close>
  the mutex that serialises resizes. \<open>LoadFactor\<close> is the quotient the source computes
  in \<open>double\<close>; it is taken here as the exact quotient, which the rounded one agrees
  with in the comparison against \<open>4.0\<close> as long as counter and capacity are below
  \<open>2 ^ 50\<close>.
\<close>

record 'a HashSetStriped =
  str_table :: "'a list list"
  str_locks :: "bool list"
  str_resize_mutex :: bool
  str_size :: nat

definition Striped_kLoadFactorThreshold :: real where
  "Striped_kLoadFactorThreshold = 4.0"

definition Striped_new :: "nat \<Rightarrow> 'a HashSetStriped option" where
  "Striped_new initial_capacity =
     (if initial_capacity > 0
      then Some \<lparr>str_table = replicate initial_capacity [],
                  str_locks = replicate initial_capacity False,
                  str_resize_mutex = False,
                  str_size = 0\<rparr>
      else None)"

definition LoadFactor :: "'a HashSetStriped \<Rightarrow> real" where
  "LoadFactor s = real (str_size s) / real (length (str_table s))"

text \<open>
  \<open>Resize\<close>: take the resize mutex, then every lock in order, check the load factor
  again, rehash into a table of twice the length; the guards release on return.
\<close>

definition Striped_Resize :: "('a \<Rightarrow> nat) \<Rightarrow> 'a HashSetStriped \<Rightarrow> 'a HashSetStriped option" where
  "Striped_Resize hash s =
     (if str_resize_mutex s then None
      else
        let s1 = s\<lparr>str_resize_mutex := True\<rparr>
        in case lock_each (str_locks s1) of
             None \<Rightarrow> None
           | Some all_locks \<Rightarrow>
               let s2 = s1\<lparr>str_locks := all_locks\<rparr>
               in if LoadFactor s2 \<le> Striped_kLoadFactorThreshold
                  then Some (s2\<lparr>str_locks := unlock_each (str_locks s2),
                                  str_resize_mutex := False\<rparr>)
                  else
                    let new_capacity = length (str_table s2) * 2;
                        new_table = rehash hash new_capacity (str_table s2)
                    in Some (s2\<lparr>str_table := new_table,
                                  str_locks := unlock_each (str_locks s2),
                                  str_resize_mutex := False\<rparr>))"

definition Striped_Add :: "('a \<Rightarrow> nat) \<Rightarrow> 'a HashSetStriped \<Rightarrow> 'a \<Rightarrow> (bool \<times> 'a HashSetStriped) option" where
  "Striped_Add hash s elem =
     (let h = hash elem;
          lock_index = h mod length (str_locks s)
      in case mutex_lock (str_locks s) lock_index of
           None \<Rightarrow> None
         | Some held \<Rightarrow>
             let s1 = s\<lparr>str_locks := held\<rparr>;
                 index = h mod length (str_table s1);
                 bucket = str_table s1 ! index
             in if elem \<in> set bucket
                then Some (False, s1\<lparr>str_locks := mutex_unlock (str_locks s1) lock_index\<rparr>)
                else
                  let s2 = s1\<lparr>str_table := (str_table s1)[index := bucket @ [elem]],
                             str_size := str_size s1 + 1\<rparr>
                  in if LoadFactor s2 > Striped_kLoadFactorThreshold
                     then map_option (Pair True)
                            (Striped_Resize hash
                               (s2\<lparr>str_locks := mutex_unlock (str_locks s2) lock_index\<rparr>))
                     else Some (True, s2\<lparr>str_locks := mutex_unlock (str_locks s2) lock_index\<rparr>))"

definition Striped_Remove :: "('a \<Rightarrow> nat) \<Rightarrow> 'a HashSetStriped \<Rightarrow> 'a \<Rightarrow> (bool \<times> 'a HashSetStriped) option" where
  "Striped_Remove hash s elem =
     (let h = hash elem;
          lock_index = h mod length (str_locks s)
      in case mutex_lock (str_locks s) lock_index of
           None \<Rightarrow> None
         | Some held \<Rightarrow>
             let s1 = s\<lparr>str_locks := held\<rparr>;
                 index = h mod length (str_table s1);
                 bucket = str_table s1 ! index
             in case erase_first elem bucket of
                  Some bucket' \<Rightarrow>
                    Some (True, s1\<lparr>str_table := (str_table s1)[index := bucket'],
                                   str_size := str_size s1 - 1,
                                   str_locks := mutex_unlock (str_locks s1) lock_index\<rparr>)
                | None \<Rightarrow>
                    Some (False, s1\<lparr>str_locks := mutex_unlock (str_locks s1) lock_index\<rparr>))"

definition Striped_Contains :: "('a \<Rightarrow> nat) \<Rightarrow> 'a HashSetStriped \<Rightarrow> 'a \<Rightarrow> (bool \<times> 'a HashSetStriped) option" where
  "Striped_Contains hash s elem =
     (let h = hash elem;
          lock_index = h mod length (str_locks s)
      in case mutex_lock (str_locks s) lock_index of
           None \<Rightarrow> None
         | Some held \<Rightarrow>
             let s1 = s\<lparr>str_locks := held\<rparr>;
                 index = h mod length (str_table s1);
                 bucket = str_table s1 ! index
             in Some (elem \<in> set bucket,
                      s1\<lparr>str_locks := mutex_unlock (str_locks s1) lock_index\<rparr>))"

definition Striped_Size :: "'a HashSetStriped \<Rightarrow> nat" where
  "Striped_Size s = str_size s"

text \<open>
  Between two calls of a single-threaded run no mutex is held; with the data-model
  invariants this is the invariant of the striped set.
\<close>

definition Striped_inv :: "('a \<Rightarrow> nat) \<Rightarrow> 'a HashSetStriped \<Rightarrow> bool" where
  "Striped_inv hash s \<longleftrightarrow>
     table_inv hash (str_table s) (str_size s) \<and>
     0 < length (str_locks s) \<and>
     str_locks s = replicate (length (str_locks s)) False \<and>
     \<not> str_resize_mutex s"

subsection \<open>HashSetRefinable\<close>

text \<open>
  A \<open>TableState\<close> bundles the buckets with one mutex per bucket. The objects made
  by \<open>make_shared\<close> live in \<open>ref_heap\<close>, a \<open>shared_ptr<TableState>\<close> is an index
  into it, and \<open>ref_state\<close> is the handle \<open>state_\<close>. A new object gets a fresh
  index; objects no handle refers to any more stay in the heap, where nothing reads them.
\<close>

record 'a TableState =
  buckets :: "'a list list"
  locks :: "bool list"

definition TableState_new :: "nat \<Rightarrow> 'a TableState" where
  "TableState_new capacity = \<lparr>buckets = replicate capacity [], locks = replicate capacity False\<rparr>"

record 'a HashSetRefinable =
  ref_heap :: "'a TableState list"
  ref_state :: nat
  ref_resize_mutex :: bool
  ref_size :: nat

definition Refinable_new :: "nat \<Rightarrow> 'a HashSetRefinable option" where
  "Refinable_new initial_capacity =
     (if initial_capacity > 0
      then Some \<lparr>ref_heap = [TableState_new initial_capacity],
                  ref_state = 0,
                  ref_resize_mutex = False,
                  ref_size = 0\<rparr>
      else None)"

text \<open>Writing through a \<open>shared_ptr\<close>: the object at address \<open>p\<close> changes.\<close>

definition set_locks :: "'a HashSetRefinable \<Rightarrow> nat \<Rightarrow> bool list \<Rightarrow> 'a HashSetRefinable" where
  "set_locks s p ms = s\<lparr>ref_heap := (ref_heap s)[p := (ref_heap s ! p)\<lparr>locks := ms\<rparr>]\<rparr>"

definition set_buckets :: "'a HashSetRefinable \<Rightarrow> nat \<Rightarrow> 'a list list \<Rightarrow> 'a HashSetRefinable" where
  "set_buckets s p bs = s\<lparr>ref_heap := (ref_heap s)[p := (ref_heap s ! p)\<lparr>buckets := bs\<rparr>]\<rparr>"

definition Refinable_BucketIndex :: "('a \<Rightarrow> nat) \<Rightarrow> 'a \<Rightarrow> 'a TableState \<Rightarrow> nat" where
  "Refinable_BucketIndex hash elem state = hash elem mod length (buckets state)"

text \<open>
  \<open>MaybeResize\<close>: nothing to do below the threshold; give up when the resize mutex
  is taken (\<open>try_to_lock\<close>) or when \<open>state_\<close> is no longer the snapshot the caller
  saw; otherwise lock every bucket of the current snapshot, build a snapshot of four
  times the capacity, rehash into it and store its handle in \<open>state_\<close>.
\<close>

definition MaybeResize :: "('a \<Rightarrow> nat) \<Rightarrow> 'a HashSetRefinable \<Rightarrow> nat \<Rightarrow> 'a HashSetRefinable option" where
  "MaybeResize hash s expected_state =
     (if ref_size s \<le> kLoadFactorThreshold * length (buckets (ref_heap s ! expected_state))
      then Some s
      else if ref_resize_mutex s then Some s
      else
        let s1 = s\<lparr>ref_resize_mutex := True\<rparr>;
            current_state = ref_state s1
        in if current_state \<noteq> expected_state then Some (s1\<lparr>ref_resize_mutex := False\<rparr>)
           else if ref_size s1 \<le>
                     kLoadFactorThreshold * length (buckets (ref_heap s1 ! current_state))
           then Some (s1\<lparr>ref_resize_mutex := False\<rparr>)
           else
             case lock_each (locks (ref_heap s1 ! current_state)) of
               None \<Rightarrow> None
             | Some locked_buckets \<Rightarrow>
                 let s2 = set_locks s1 current_state locked_buckets;
                     new_capacity = length (buckets (ref_heap s2 ! current_state)) * 4;
                     new_state = (TableState_new new_capacity)
                       \<lparr>buckets := rehash hash new_capacity (buckets (ref_heap s2 ! current_state))\<rparr>;
                     new_handle = length (ref_heap s2);
                     s3 = s2\<lparr>ref_heap := ref_heap s2 @ [new_state]\<rparr>;
                     s4 = s3\<lparr>ref_state := new_handle\<rparr>;
                     s5 = set_locks s4 current_state (unlock_each locked_buckets)
                 in Some (s5\<lparr>ref_resize_mutex := False\<rparr>))"

text \<open>
  The operations loop until the snapshot they locked is still the current one; a run
  that never leaves the loop has no result.
\<close>

partial_function (option) Refinable_Add ::
  "('a \<Rightarrow> nat) \<Rightarrow> 'a HashSetRefinable \<Rightarrow> 'a \<Rightarrow> (bool \<times> 'a HashSetRefinable) option" where
  "Refinable_Add hash s elem =
     (let state = ref_state s;
          index = Refinable_BucketIndex hash elem (ref_heap s ! state)
      in case mutex_lock (locks (ref_heap s ! state)) index of
           None \<Rightarrow> None
         | Some held \<Rightarrow>
             let s1 = set_locks s state held
             in if state \<noteq> ref_state s1
                then Refinable_Add hash (set_locks s1 state (mutex_unlock held index)) elem
                else
                  let bucket = buckets (ref_heap s1 ! state) ! index
                  in if elem \<in> set bucket
                     then Some (False, set_locks s1 state (mutex_unlock held index))
                     else
                       let s2 = set_buckets s1 state
                                  ((buckets (ref_heap s1 ! state))[index := bucket @ [elem]]);
                           new_size = ref_size s2 + 1;
                           s3 = s2\<lparr>ref_size := ref_size s2 + 1\<rparr>;
                           should_resize =
                             (new_size >
                                kLoadFactorThreshold * length (buckets (ref_heap s3 ! state)));
                           s4 = set_locks s3 state (mutex_unlock held index)
                       in if should_resize
                          then map_option (Pair True) (MaybeResize hash s4 state)
                          else Some (True, s4))"

partial_function (option) Refinable_Remove ::
  "('a \<Rightarrow> nat) \<Rightarrow> 'a HashSetRefinable \<Rightarrow> 'a \<Rightarrow> (bool \<times> 'a HashSetRefinable) option" where
  "Refinable_Remove hash s elem =
     (let state = ref_state s;
          index = Refinable_BucketIndex hash elem (ref_heap s ! state)
      in case mutex_lock (locks (ref_heap s ! state)) index of
           None \<Rightarrow> None
         | Some held \<Rightarrow>
             let s1 = set_locks s state held
             in if state \<noteq> ref_state s1
                then Refinable_Remove hash (set_locks s1 state (mutex_unlock held index)) elem
                else
                  let bucket = buckets (ref_heap s1 ! state) ! index
                  in case erase_first elem bucket of
                       Some bucket' \<Rightarrow>
                         let s2 = set_buckets s1 state
                                    ((buckets (ref_heap s1 ! state))[index := bucket']);
                             s3 = s2\<lparr>ref_size := ref_size s2 - 1\<rparr>
                         in Some (True, set_locks s3 state (mutex_unlock held index))
                     | None \<Rightarrow> Some (False, set_locks s1 state (mutex_unlock held index)))"

partial_function (option) Refinable_Contains ::
  "('a \<Rightarrow> nat) \<Rightarrow> 'a HashSetRefinable \<Rightarrow> 'a \<Rightarrow> (bool \<times> 'a HashSetRefinable) option" where
  "Refinable_Contains hash s elem =
     (let state = ref_state s;
          index = Refinable_BucketIndex hash elem (ref_heap s ! state)
      in case mutex_lock (locks (ref_heap s ! state)) index of
           None \<Rightarrow> None
         | Some held \<Rightarrow>
             let s1 = set_locks s state held
             in if state \<noteq> ref_state s1
                then Refinable_Contains hash (set_locks s1 state (mutex_unlock held index)) elem
                else
                  let bucket = buckets (ref_heap s1 ! state) ! index
                  in Some (elem \<in> set bucket, set_locks s1 state (mutex_unlock held index)))"

declare Refinable_Add.simps [code] Refinable_Remove.simps [code] Refinable_Contains.simps [code]

definition Refinable_Size :: "'a HashSetRefinable \<Rightarrow> nat" where
  "Refinable_Size s = ref_size s"

text \<open>The snapshot \<open>state_\<close> points to.\<close>

definition current :: "'a HashSetRefinable \<Rightarrow> 'a TableState" where
  "current s = ref_heap s ! ref_state s"

definition Refinable_inv :: "('a \<Rightarrow> nat) \<Rightarrow> 'a HashSetRefinable \<Rightarrow> bool" where
  "Refinable_inv hash s \<longleftrightarrow>
     ref_state s < length (ref_heap s) \<and>
     table_inv hash (buckets (current s)) (ref_size s) \<and>
     locks (current s) = replicate (length (buckets (current s))) False \<and>
     \<not> ref_resize_mutex s"

subsection \<open>Single-threaded runs\<close>

text \<open>
  A caller holds one set and issues operations one after the other. The return values
  are collected in order; a run in which some call never returns has no result.
\<close>

datatype 'a operation = Add 'a | Remove 'a | Contains 'a | Size

datatype ret = Flag bool | Count nat

fun Seq_step :: "('a \<Rightarrow> nat) \<Rightarrow> 'a HashSetSequential \<Rightarrow> 'a operation \<Rightarrow> ret \<times> 'a HashSetSequential" where
  "Seq_step hash s (Add x) = (case Seq_Add hash s x of (b, s') \<Rightarrow> (Flag b, s'))"
| "Seq_step hash s (Remove x) = (case Seq_Remove hash s x of (b, s') \<Rightarrow> (Flag b, s'))"
| "Seq_step hash s (Contains x) = (Flag (Seq_Contains hash s x), s)"
| "Seq_step hash s Size = (Count (Seq_Size s), s)"

fun Seq_exec :: "('a \<Rightarrow> nat) \<Rightarrow> 'a HashSetSequential \<Rightarrow> 'a operation list \<Rightarrow> ret list \<times> 'a HashSetSequential" where
  "Seq_exec hash s [] = ([], s)"
| "Seq_exec hash s (c # cs) =
     (case Seq_step hash s c of
        (r, s') \<Rightarrow> (case Seq_exec hash s' cs of (rs, s'') \<Rightarrow> (r # rs, s'')))"

definition Seq_run :: "('a \<Rightarrow> nat) \<Rightarrow> nat \<Rightarrow> 'a operation list \<Rightarrow> (ret list \<times> 'a HashSetSequential) option" where
  "Seq_run hash initial_capacity cs =
     (case Seq_new initial_capacity of
        None \<Rightarrow> None
      | Some s \<Rightarrow> Some (Seq_exec hash s cs))"

fun Striped_step :: "('a \<Rightarrow> nat) \<Rightarrow> 'a HashSetStriped \<Rightarrow> 'a operation \<Rightarrow> (ret \<times> 'a HashSetStriped) option" where
  "Striped_step hash s (Add x) = map_option (\<lambda>(b, s'). (Flag b, s')) (Striped_Add hash s x)"
| "Striped_step hash s (Remove x) = map_option (\<lambda>(b, s'). (Flag b, s')) (Striped_Remove hash s x)"
| "Striped_step hash s (Contains x) = map_option (\<lambda>(b, s'). (Flag b, s')) (Striped_Contains hash s x)"
| "Striped_step hash s Size = Some (Count (Striped_Size s), s)"

fun Striped_exec :: "('a \<Rightarrow> nat) \<Rightarrow> 'a HashSetStriped \<Rightarrow> 'a operation list \<Rightarrow> (ret list \<times> 'a HashSetStriped) option" where
  "Striped_exec hash s [] = Some ([], s)"
| "Striped_exec hash s (c # cs) =
     (case Striped_step hash s c of
        None \<Rightarrow> None
      | Some (r, s') \<Rightarrow>
          (case Striped_exec hash s' cs of
             None \<Rightarrow> None
           | Some (rs, s'') \<Rightarrow> Some (r # rs, s'')))"

definition Striped_run :: "('a \<Rightarrow> nat) \<Rightarrow> nat \<Rightarrow> 'a operation list \<Rightarrow> (ret list \<times> 'a HashSetStriped) option" where
  "Striped_run hash initial_capacity cs =
     (case Striped_new initial_capacity of
        None \<Rightarrow> None
      | Some s \<Rightarrow> Striped_exec hash s cs)"

fun Refinable_step :: "('a \<Rightarrow> nat) \<Rightarrow> 'a HashSetRefinable \<Rightarrow> 'a operation \<Rightarrow> (ret \<times> 'a HashSetRefinable) option" where
  "Refinable_step hash s (Add x) = map_option (\<lambda>(b, s'). (Flag b, s')) (Refinable_Add hash s x)"
| "Refinable_step hash s (Remove x) = map_option (\<lambda>(b, s'). (Flag b, s')) (Refinable_Remove hash s x)"
| "Refinable_step hash s (Contains x) = map_option (\<lambda>(b, s'). (Flag b, s')) (Refinable_Contains hash s x)"
| "Refinable_step hash s Size = Some (Count (Refinable_Size s), s)"

fun Refinable_exec :: "('a \<Rightarrow> nat) \<Rightarrow> 'a HashSetRefinable \<Rightarrow> 'a operation list \<Rightarrow> (ret list \<times> 'a HashSetRefinable) option" where
  "Refinable_exec hash s [] = Some ([], s)"
| "Refinable_exec hash s (c # cs) =
     (case Refinable_step hash s c of
        None \<Rightarrow> None
      | Some (r, s') \<Rightarrow>
          (case Refinable_exec hash s' cs of
             None \<Rightarrow> None
           | Some (rs, s'') \<Rightarrow> Some (r # rs, s'')))"

definition Refinable_run :: "('a \<Rightarrow> nat) \<Rightarrow> nat \<Rightarrow> 'a operation list \<Rightarrow> (ret list \<times> 'a HashSetRefinable) option" where
  "Refinable_run hash initial_capacity cs =
     (case Refinable_new initial_capacity of
        None \<Rightarrow> None
      | Some s \<Rightarrow> Refinable_exec hash s cs)"

subsection \<open>The harness\<close>

text \<open>
  \<open>main\<close> of the harness. \<open>args\<close> are the values of the numerals given on the command
  line (\<open>argc\<close> is their number plus one). The variable \<open>count\<close> of the source is
  \<open>count'\<close> here. The elements are \<open>int\<close>s, 32-bit words here, and
  \<open>static_cast<int>(i)\<close> keeps the low 32 bits. What goes to the error stream is a
  list of diagnostics, what goes to the output stream a list of lines.

  \<open>main\<close> catches nothing, so an exception thrown by the library ends the process by
  \<open>std::terminate\<close>: it aborts, as after a failed assertion, and has no exit code of
  its own. Three exceptions can be thrown:
  \<^item> \<open>std::out_of_range\<close> by \<open>std::stoul\<close>, for a value that \<open>unsigned long\<close>
    (64 bits) cannot hold;
  \<^item> \<open>std::length_error\<close> by the constructor of a vector of more than
    \<open>max_size()\<close> buckets, in the constructor of the set, which builds the table
    before it evaluates the assertion, and in \<open>Resize\<close>;
  \<^item> \<open>std::bad_alloc\<close> by any allocation, in the constructor of the set and in
    \<open>Add\<close> (\<open>push_back\<close> and \<open>Resize\<close>).
  \<open>max_size()\<close> is a constant of the library, and whether an allocation fails depends
  on the machine: both are parameters, gathered in a record. \<open>constructor_alloc_fails\<close>
  says whether the allocation of the first table fails, \<open>add_alloc_fails i\<close> whether
  an allocation of the \<open>Add\<close> of the iteration \<open>i\<close> does.
\<close>

record machine =
  max_size :: nat
  constructor_alloc_fails :: bool
  add_alloc_fails :: "nat \<Rightarrow> bool"

datatype diag =
    Usage
  | Assertion_failed
  | Uncaught_exception
  | Expected_size nat nat
  | Expected_value "32 word"
  | Expected_empty nat

datatype outcome = Exit nat | Aborted

text \<open>\<open>std::stoul\<close> on a numeral of the value \<open>v\<close>: \<open>None\<close> when it throws.\<close>

definition stoul :: "nat \<Rightarrow> nat option" where
  "stoul v = (if v < 2 ^ 64 then Some v else None)"

definition static_cast_int :: "nat \<Rightarrow> 32 word" where
  "static_cast_int i = of_nat i"

text \<open>
  Whether the constructor of the set throws: the table is longer than \<open>max_size()\<close>,
  or its allocation fails (an empty table needs none).
\<close>

definition constructor_throws :: "machine \<Rightarrow> nat \<Rightarrow> bool" where
  "constructor_throws m initial_capacity \<longleftrightarrow>
     initial_capacity > max_size m \<or> (0 < initial_capacity \<and> constructor_alloc_fails m)"

text \<open>
  Whether \<open>Add\<close> throws in the iteration \<open>i\<close>: never when the element is found, since
  \<open>Add\<close> then returns before it allocates; otherwise when an allocation fails, or when
  \<open>Resize\<close> is called and the doubled table is longer than \<open>max_size()\<close>.
\<close>

definition Add_throws ::
  "machine \<Rightarrow> (32 word \<Rightarrow> nat) \<Rightarrow> nat \<Rightarrow> 32 word HashSetSequential \<Rightarrow> 32 word \<Rightarrow> bool" where
  "Add_throws m hash i s elem \<longleftrightarrow>
     (let index = Seq_BucketIndex hash s elem;
          bucket = seq_table s ! index
      in if elem \<in> set bucket then False
         else add_alloc_fails m i \<or>
              (seq_size s + 1 > kLoadFactorThreshold * length (seq_table s) \<and>
               length (seq_table s) * 2 > max_size m))"

text \<open>
  The first loop, over the values of \<open>i\<close> still to come:
  \<open>Add(static_cast<int>(i))\<close>. \<open>None\<close> when an \<open>Add\<close> throws.
\<close>

fun add_loop ::
  "machine \<Rightarrow> (32 word \<Rightarrow> nat) \<Rightarrow> nat list \<Rightarrow> 32 word HashSetSequential \<Rightarrow>
   32 word HashSetSequential option" where
  "add_loop m hash [] s = Some s"
| "add_loop m hash (i # is) s =
     (if Add_throws m hash i s (static_cast_int i) then None
      else add_loop m hash is (snd (Seq_Add hash s (static_cast_int i))))"

text \<open>
  The second loop, over the values of \<open>i\<close> still to come: the size check only writes
  a diagnostic, the membership check leaves \<open>main\<close> with code 1.
\<close>

fun remove_loop ::
  "(32 word \<Rightarrow> nat) \<Rightarrow> nat \<Rightarrow> nat list \<Rightarrow> diag list \<Rightarrow> 32 word HashSetSequential \<Rightarrow>
   (diag list \<times> outcome) + (diag list \<times> 32 word HashSetSequential)" where
  "remove_loop hash count' [] err s = Inr (err, s)"
| "remove_loop hash count' (i # is) err s =
     (let err1 = (if Seq_Size s \<noteq> count' - i
                  then err @ [Expected_size (count' - i) (Seq_Size s)] else err);
          expected_value = static_cast_int i
      in if \<not> Seq_Contains hash s expected_value
         then Inl (err1 @ [Expected_value expected_value], Exit 1)
         else remove_loop hash count' is err1 (snd (Seq_Remove hash s expected_value)))"

definition main ::
  "machine \<Rightarrow> (32 word \<Rightarrow> nat) \<Rightarrow> nat list \<Rightarrow> diag list \<times> string list \<times> outcome" where
  "main m hash args =
     (if length args \<noteq> 2 then ([Usage], [], Exit 1)
      else
        case stoul (args ! 0) of
          None \<Rightarrow> ([Uncaught_exception], [], Aborted)
        | Some initial_capacity \<Rightarrow>
            (case stoul (args ! 1) of
               None \<Rightarrow> ([Uncaught_exception], [], Aborted)
             | Some count' \<Rightarrow>
                 if constructor_throws m initial_capacity
                 then ([Uncaught_exception], [], Aborted)
                 else
                   (case Seq_new initial_capacity of
                      None \<Rightarrow> ([Assertion_failed], [], Aborted)
                    | Some sequential_set \<Rightarrow>
                        (case add_loop m hash [0..<count'] sequential_set of
                           None \<Rightarrow> ([Uncaught_exception], [], Aborted)
                         | Some s1 \<Rightarrow>
                             if Seq_Size s1 \<noteq> count'
                             then ([Expected_size count' (Seq_Size s1)], [], Exit 1)
                             else
                               (case remove_loop hash count' [0..<count'] [] s1 of
                                  Inl (err, code) \<Rightarrow> (err, [], code)
                                | Inr (err, s2) \<Rightarrow>
                                    if Seq_Size s2 \<noteq> 0
                                    then (err @ [Expected_empty (Seq_Size s2)], [], Exit 1)
                                    else (err, [''Sequential hash set tests succeeded''],
                                          Exit 0))))))"

text \<open>
  The checks of the harness as the specification lists them: the size after the
  insertions, then before each removal the size and the membership of the value,
  and the size at the end. \<open>after_adds i\<close> is the set after the first \<open>i\<close>
  insertions, \<open>after_removes i\<close> the set after all insertions and the first \<open>i\<close>
  removals.
\<close>

definition after_adds :: "(32 word \<Rightarrow> nat) \<Rightarrow> nat \<Rightarrow> nat \<Rightarrow> 32 word HashSetSequential" where
  "after_adds hash initial_capacity i =
     fold (\<lambda>j s. snd (Seq_Add hash s (static_cast_int j))) [0..<i]
       \<lparr>seq_table = replicate initial_capacity [], seq_size = 0\<rparr>"

definition after_removes :: "(32 word \<Rightarrow> nat) \<Rightarrow> nat \<Rightarrow> nat \<Rightarrow> nat \<Rightarrow> 32 word HashSetSequential" where
  "after_removes hash initial_capacity count' i =
     fold (\<lambda>j s. snd (Seq_Remove hash s (static_cast_int j))) [0..<i]
       (after_adds hash initial_capacity count')"

definition checks_pass :: "(32 word \<Rightarrow> nat) \<Rightarrow> nat \<Rightarrow> nat \<Rightarrow> bool" where
  "checks_pass hash initial_capacity count' \<longleftrightarrow>
     Seq_Size (after_adds hash initial_capacity count') = count' \<and>
     list_all (\<lambda>i. Seq_Size (after_removes hash initial_capacity count' i) = count' - i \<and>
                   Seq_Contains hash (after_removes hash initial_capacity count' i) (static_cast_int i))
       [0..<count'] \<and>
     Seq_Size (after_removes hash initial_capacity count' count') = 0"

text \<open>
  The runs of the harness that reach its checks: the arguments fit \<open>unsigned long\<close>,
  the constructor neither throws nor fails its assertion, and no \<open>Add\<close> throws.
\<close>

definition adds_complete :: "machine \<Rightarrow> (32 word \<Rightarrow> nat) \<Rightarrow> nat \<Rightarrow> nat \<Rightarrow> bool" where
  "adds_complete m hash initial_capacity count' \<longleftrightarrow>
     list_all (\<lambda>i. \<not> Add_throws m hash i (after_adds hash initial_capacity i) (static_cast_int i))
       [0..<count']"

definition reaches_checks :: "machine \<Rightarrow> (32 word \<Rightarrow> nat) \<Rightarrow> nat \<Rightarrow> nat \<Rightarrow> bool" where
  "reaches_checks m hash initial_capacity count' \<longleftrightarrow>
     initial_capacity < 2 ^ 64 \<and> count' < 2 ^ 64 \<and>
     \<not> constructor_throws m initial_capacity \<and>
     0 < initial_capacity \<and>
     adds_complete m hash initial_capacity count'"

text \<open>
  Two machines for the examples: \<open>max_size()\<close> is that of a vector of 24-byte
  elements with 64-bit addresses, \<open>(2 ^ 63 - 1) div 24\<close>; on the first no
  allocation fails, on the second the allocation of the first table does.
\<close>

definition example_machine :: machine where
  "example_machine =
     \<lparr>max_size = 384307168202282325, constructor_alloc_fails = False,
      add_alloc_fails = (\<lambda>i. False)\<rparr>"

definition full_machine :: machine where
  "full_machine = example_machine\<lparr>constructor_alloc_fails := True\<rparr>"

subsection \<open>Tables after an insertion and after a removal\<close>

text \<open>
  What a successful \<open>Add\<close> and a successful \<open>Remove\<close> do to the table, whichever the
  variant: the element is appended to its bucket, and the table is rehashed into
  \<open>factor\<close> times its length when the new count exceeds four times its length; the
  first occurrence of the element is erased from its bucket.
\<close>

definition table_add :: "('a \<Rightarrow> nat) \<Rightarrow> nat \<Rightarrow> 'a list list \<Rightarrow> nat \<Rightarrow> 'a \<Rightarrow> 'a list list" where
  "table_add hash factor tbl n elem =
     (let index = hash elem mod length tbl;
          tbl1 = tbl[index := tbl ! index @ [elem]]
      in if n + 1 > 4 * length tbl then rehash hash (length tbl * factor) tbl1 else tbl1)"

definition table_remove :: "('a \<Rightarrow> nat) \<Rightarrow> 'a list list \<Rightarrow> 'a \<Rightarrow> 'a list list" where
  "table_remove hash tbl elem =
     (let index = hash elem mod length tbl
      in tbl[index := remove1 elem (tbl ! index)])"

text \<open>
  One operation on a table with its counter, and a list of them: what the three
  variants have in common once locks and handles are set aside. The variants differ
  in \<open>factor\<close> only.
\<close>

fun table_step :: "('a \<Rightarrow> nat) \<Rightarrow> nat \<Rightarrow> 'a list list \<times> nat \<Rightarrow> 'a operation \<Rightarrow> ret \<times> ('a list list \<times> nat)" where
  "table_step hash factor (tbl, n) (Add x) =
     (if x \<in> members tbl then (Flag False, (tbl, n))
      else (Flag True, (table_add hash factor tbl n x, n + 1)))"
| "table_step hash factor (tbl, n) (Remove x) =
     (if x \<in> members tbl then (Flag True, (table_remove hash tbl x, n - 1))
      else (Flag False, (tbl, n)))"
| "table_step hash factor (tbl, n) (Contains x) = (Flag (x \<in> members tbl), (tbl, n))"
| "table_step hash factor (tbl, n) Size = (Count n, (tbl, n))"

fun table_exec :: "('a \<Rightarrow> nat) \<Rightarrow> nat \<Rightarrow> 'a list list \<times> nat \<Rightarrow> 'a operation list \<Rightarrow> ret list \<times> ('a list list \<times> nat)" where
  "table_exec hash factor v [] = ([], v)"
| "table_exec hash factor v (c # cs) =
     (case table_step hash factor v c of
        (r, v') \<Rightarrow> (case table_exec hash factor v' cs of (rs, v'') \<Rightarrow> (r # rs, v'')))"

text \<open>The table and the counter of each variant.\<close>

definition Seq_view :: "'a HashSetSequential \<Rightarrow> 'a list list \<times> nat" where
  "Seq_view s = (seq_table s, seq_size s)"

definition Striped_view :: "'a HashSetStriped \<Rightarrow> 'a list list \<times> nat" where
  "Striped_view s = (str_table s, str_size s)"

definition Refinable_view :: "'a HashSetRefinable \<Rightarrow> 'a list list \<times> nat" where
  "Refinable_view s = (buckets (current s), ref_size s)"

section \<open>Properties\<close>

subsection \<open>Chains, rehashing and the table invariants\<close>

lemma erase_first_eq:
  "erase_first x xs = (if x \<in> set xs then Some (remove1 x xs) else None)"
  by (induction xs) auto

lemma length_push_rehashed: "length (push_rehashed h n x t) = length t"
  by (simp add: push_rehashed_def Let_def)

lemma length_fold_push: "length (fold (push_rehashed h n) b t) = length t"
  by (induction b arbitrary: t) (simp_all add: length_push_rehashed)

lemma nth_push_rehashed:
  "j < length t \<Longrightarrow> length t = n \<Longrightarrow>
   push_rehashed h n x t ! j = (if h x mod n = j then t ! j @ [x] else t ! j)"
  by (auto simp: push_rehashed_def Let_def)

lemma nth_fold_push:
  "j < length t \<Longrightarrow> length t = n \<Longrightarrow>
   fold (push_rehashed h n) b t ! j = t ! j @ filter (\<lambda>x. h x mod n = j) b"
  by (induction b arbitrary: t) (simp_all add: length_push_rehashed nth_push_rehashed)

lemma length_fold_fold_push:
  "length (fold (\<lambda>b t. fold (push_rehashed h n) b t) tbl t) = length t"
  by (induction tbl arbitrary: t) (simp_all add: length_fold_push)

lemma nth_fold_fold_push:
  "j < length t \<Longrightarrow> length t = n \<Longrightarrow>
   fold (\<lambda>b t. fold (push_rehashed h n) b t) tbl t ! j =
     t ! j @ filter (\<lambda>x. h x mod n = j) (concat tbl)"
  by (induction tbl arbitrary: t) (simp_all add: length_fold_push nth_fold_push)

lemma length_rehash: "length (rehash h n tbl) = n"
  by (simp add: rehash_def length_fold_fold_push)

lemma nth_rehash:
  "j < n \<Longrightarrow> rehash h n tbl ! j = filter (\<lambda>x. h x mod n = j) (concat tbl)"
  by (simp add: rehash_def nth_fold_fold_push)

lemma mset_concat_update:
  "i < length t \<Longrightarrow> mset (concat (t[i := t ! i @ [x]])) = add_mset x (mset (concat t))"
  by (induction t arbitrary: i) (auto split: nat.splits)

lemma mset_concat_push:
  "0 < length t \<Longrightarrow> length t = n \<Longrightarrow>
   mset (concat (push_rehashed h n x t)) = add_mset x (mset (concat t))"
  by (simp add: push_rehashed_def Let_def mset_concat_update)

lemma mset_concat_fold_push:
  "0 < length t \<Longrightarrow> length t = n \<Longrightarrow>
   mset (concat (fold (push_rehashed h n) b t)) = mset b + mset (concat t)"
  by (induction b arbitrary: t) (simp_all add: length_push_rehashed mset_concat_push)

lemma mset_concat_fold_fold_push:
  "0 < length t \<Longrightarrow> length t = n \<Longrightarrow>
   mset (concat (fold (\<lambda>b t. fold (push_rehashed h n) b t) tbl t)) =
     mset (concat tbl) + mset (concat t)"
  by (induction tbl arbitrary: t) (simp_all add: length_fold_push mset_concat_fold_push)

lemma mset_concat_rehash:
  "0 < n \<Longrightarrow> mset (concat (rehash h n tbl)) = mset (concat tbl)"
  by (simp add: rehash_def mset_concat_fold_fold_push)

lemma distinct_concat_indexed:
  "(\<forall>i < length bs. \<forall>x \<in> set (bs ! i). f x = k + i) \<Longrightarrow>
   (\<forall>i < length bs. distinct (bs ! i)) \<Longrightarrow> distinct (concat bs)"
proof (induction bs arbitrary: k)
  case Nil
  then show ?case by simp
next
  case (Cons b bs)
  have hd: "distinct b" "\<forall>x \<in> set b. f x = k"
    using Cons.prems by force+
  have tl1: "\<forall>i < length bs. \<forall>x \<in> set (bs ! i). f x = Suc k + i"
    using Cons.prems(1) by force
  have tl2: "\<forall>i < length bs. distinct (bs ! i)"
    using Cons.prems(2) by force
  have "distinct (concat bs)"
    using Cons.IH [OF tl1 tl2] .
  moreover have "set b \<inter> set (concat bs) = {}"
  proof -
    { fix x assume "x \<in> set b" "x \<in> set (concat bs)"
      then obtain c where "c \<in> set bs" "x \<in> set c" by auto
      then obtain i where "i < length bs" "bs ! i = c" by (auto simp: in_set_conv_nth)
      with tl1 \<open>x \<in> set c\<close> have "f x = Suc k + i" by blast
      moreover from hd \<open>x \<in> set b\<close> have "f x = k" by blast
      ultimately have False by simp }
    then show ?thesis by blast
  qed
  ultimately show ?case using hd by simp
qed

lemma table_inv_distinct: "table_inv h tbl n \<Longrightarrow> distinct (concat tbl)"
  unfolding table_inv_def
  using distinct_concat_indexed [of tbl "\<lambda>x. h x mod length tbl" 0] by simp

lemma table_inv_size: "table_inv h tbl n \<Longrightarrow> n = length (concat tbl)"
  by (simp add: table_inv_def length_concat)

lemma table_inv_pos: "table_inv h tbl n \<Longrightarrow> 0 < length tbl"
  by (simp add: table_inv_def)

lemma members_bucket:
  assumes "table_inv h tbl n"
  shows "x \<in> members tbl \<longleftrightarrow> x \<in> set (tbl ! (h x mod length tbl))"
proof
  assume "x \<in> members tbl"
  then obtain b where "b \<in> set tbl" "x \<in> set b"
    by (auto simp: members_def)
  then obtain i where "i < length tbl" "tbl ! i = b"
    by (auto simp: in_set_conv_nth)
  with assms \<open>x \<in> set b\<close> have "h x mod length tbl = i"
    unfolding table_inv_def by blast
  with \<open>tbl ! i = b\<close> \<open>x \<in> set b\<close> show "x \<in> set (tbl ! (h x mod length tbl))"
    by simp
next
  assume "x \<in> set (tbl ! (h x mod length tbl))"
  moreover have "h x mod length tbl < length tbl"
    using assms by (simp add: table_inv_def)
  ultimately show "x \<in> members tbl"
    unfolding members_def using nth_mem by fastforce
qed

lemma table_inv_replicate: "0 < cap \<Longrightarrow> table_inv h (replicate cap []) 0"
  by (simp add: table_inv_def)

lemma members_replicate: "members (replicate cap []) = {}"
  by (simp add: members_def)

lemma sum_length_update:
  "i < length t \<Longrightarrow>
   sum_list (map length (t[i := b])) + length (t ! i) = sum_list (map length t) + length b"
  by (induction t arbitrary: i) (auto split: nat.splits)

lemma table_inv_push:
  assumes inv: "table_inv h tbl n" and new: "x \<notin> set (tbl ! (h x mod length tbl))"
  shows "table_inv h (tbl[h x mod length tbl := tbl ! (h x mod length tbl) @ [x]]) (n + 1)"
proof -
  have il: "h x mod length tbl < length tbl"
    using inv by (simp add: table_inv_def)
  have "sum_list (map length (tbl[h x mod length tbl := tbl ! (h x mod length tbl) @ [x]]))
        = sum_list (map length tbl) + 1"
    using sum_length_update [OF il, of "tbl ! (h x mod length tbl) @ [x]"] by simp
  then show ?thesis
    using inv new il unfolding table_inv_def
    by (auto simp: nth_list_update)
qed

lemma members_push:
  "i < length tbl \<Longrightarrow> members (tbl[i := tbl ! i @ [x]]) = insert x (members tbl)"
  unfolding members_def
  by (metis mset_concat_update set_mset_add_mset_insert set_mset_mset)

lemma table_inv_erase:
  assumes inv: "table_inv h tbl n" and old: "x \<in> set (tbl ! (h x mod length tbl))"
  shows "table_inv h (tbl[h x mod length tbl := remove1 x (tbl ! (h x mod length tbl))]) (n - 1)"
proof -
  define i where "i = h x mod length tbl"
  define b where "b = tbl ! i"
  have il: "i < length tbl"
    using inv by (simp add: table_inv_def i_def)
  have xb: "x \<in> set b"
    using old by (simp add: b_def i_def)
  have lb: "length (remove1 x b) = length b - 1" "0 < length b"
    using xb by (auto simp: length_remove1)
  have "sum_list (map length (tbl[i := remove1 x b])) + length b
        = sum_list (map length tbl) + length (remove1 x b)"
    using sum_length_update [OF il, of "remove1 x b"] by (simp add: b_def)
  with lb have s: "sum_list (map length (tbl[i := remove1 x b])) = sum_list (map length tbl) - 1"
    by linarith
  have p: "\<forall>j < length tbl. \<forall>y \<in> set (tbl[i := remove1 x b] ! j). h y mod length tbl = j"
  proof (intro allI impI ballI)
    fix j y assume j: "j < length tbl" and y: "y \<in> set (tbl[i := remove1 x b] ! j)"
    have "y \<in> set (tbl ! j)"
      using y j set_remove1_subset [of x b] by (cases "j = i") (auto simp: b_def)
    then show "h y mod length tbl = j"
      using inv j unfolding table_inv_def by blast
  qed
  have d: "\<forall>j < length tbl. distinct (tbl[i := remove1 x b] ! j)"
  proof (intro allI impI)
    fix j assume j: "j < length tbl"
    have "distinct (tbl ! j)" using inv j unfolding table_inv_def by blast
    then show "distinct (tbl[i := remove1 x b] ! j)"
      using j by (cases "j = i") (auto simp: b_def)
  qed
  have n: "n = sum_list (map length tbl)"
    using inv by (simp add: table_inv_def)
  have "table_inv h (tbl[i := remove1 x b]) (n - 1)"
    unfolding table_inv_def using il p d s n by auto
  then show ?thesis by (simp add: i_def b_def)
qed

lemma members_erase:
  assumes inv: "table_inv h tbl n" and old: "x \<in> set (tbl ! (h x mod length tbl))"
  shows "members (tbl[h x mod length tbl := remove1 x (tbl ! (h x mod length tbl))]) = members tbl - {x}"
proof -
  let ?i = "h x mod length tbl"
  let ?t = "tbl[?i := remove1 x (tbl ! ?i)]"
  have il: "?i < length tbl"
    using inv by (simp add: table_inv_def)
  have inv': "table_inv h ?t (n - 1)"
    using table_inv_erase [OF inv old] .
  have d: "distinct (tbl ! ?i)"
    using inv il by (simp add: table_inv_def)
  show ?thesis
  proof (rule set_eqI)
    fix y
    have "y \<in> members ?t \<longleftrightarrow> y \<in> set (?t ! (h y mod length tbl))"
      using members_bucket [OF inv', of y] by simp
    also have "\<dots> \<longleftrightarrow> y \<in> set (tbl ! (h y mod length tbl)) \<and> y \<noteq> x"
      using il d by (cases "h y mod length tbl = ?i") (auto simp: nth_list_update)
    also have "\<dots> \<longleftrightarrow> y \<in> members tbl - {x}"
      using members_bucket [OF inv, of y] by simp
    finally show "y \<in> members ?t \<longleftrightarrow> y \<in> members tbl - {x}" .
  qed
qed

lemma table_inv_rehash:
  assumes inv: "table_inv h tbl n" and m: "0 < m"
  shows "table_inv h (rehash h m tbl) n"
proof -
  have "distinct (concat tbl)" using inv by (rule table_inv_distinct)
  moreover have "length (concat (rehash h m tbl)) = length (concat tbl)"
    using mset_concat_rehash [OF m, of h tbl] by (metis size_mset)
  ultimately show ?thesis
    using inv m unfolding table_inv_def
    by (simp add: length_rehash nth_rehash length_concat)
qed

lemma members_rehash: "0 < m \<Longrightarrow> members (rehash h m tbl) = members tbl"
  unfolding members_def by (metis mset_concat_rehash set_mset_mset)

lemma table_add_inv:
  assumes "table_inv h tbl n" "x \<notin> members tbl" "0 < f"
  shows "table_inv h (table_add h f tbl n x) (n + 1)"
proof -
  have nb: "x \<notin> set (tbl ! (h x mod length tbl))"
    using assms members_bucket by fast
  have pos: "0 < length tbl * f"
    using assms by (simp add: table_inv_def)
  show ?thesis
    using table_inv_push [OF assms(1) nb] table_inv_rehash [OF table_inv_push [OF assms(1) nb] pos]
    by (simp add: table_add_def Let_def)
qed

lemma table_add_members:
  assumes "table_inv h tbl n" "0 < f"
  shows "members (table_add h f tbl n x) = insert x (members tbl)"
proof -
  have il: "h x mod length tbl < length tbl" and pos: "0 < length tbl * f"
    using assms by (simp_all add: table_inv_def)
  show ?thesis
    using members_push [OF il, of x] members_rehash [OF pos, of h]
    by (simp add: table_add_def Let_def)
qed

lemma length_table_add:
  "length (table_add h f tbl n x) = (if n + 1 > 4 * length tbl then length tbl * f else length tbl)"
  by (simp add: table_add_def Let_def length_rehash)

lemma table_add_load:
  assumes "n \<le> 4 * length tbl" "0 < length tbl" "2 \<le> f"
  shows "n + 1 \<le> 4 * length (table_add h f tbl n x)"
proof (cases "n + 1 > 4 * length tbl")
  case True
  have "n + 1 \<le> 4 * (length tbl * 2)"
    using assms(1,2) by linarith
  also have "\<dots> \<le> 4 * (length tbl * f)"
    using assms(3) by (intro mult_le_mono2) 
  finally show ?thesis
    using True by (simp only: length_table_add if_True)
next
  case False
  then show ?thesis
    by (simp add: length_table_add)
qed

lemma table_remove_inv:
  "table_inv h tbl n \<Longrightarrow> x \<in> members tbl \<Longrightarrow> table_inv h (table_remove h tbl x) (n - 1)"
  using table_inv_erase [of h tbl n x] members_bucket [of h tbl n x]
  by (simp add: table_remove_def Let_def)

lemma table_remove_members:
  "table_inv h tbl n \<Longrightarrow> x \<in> members tbl \<Longrightarrow> members (table_remove h tbl x) = members tbl - {x}"
  using members_erase [of h tbl n x] members_bucket [of h tbl n x]
  by (simp add: table_remove_def Let_def)

lemma length_table_remove: "length (table_remove h tbl x) = length tbl"
  by (simp add: table_remove_def Let_def)

lemma table_inv_nonempty: "table_inv h tbl n \<Longrightarrow> x \<in> members tbl \<Longrightarrow> 0 < n"
  by (metis table_inv_size members_def length_pos_if_in_set)

lemma Seq_Add_unfold:
  assumes "Seq_inv h s"
  shows "Seq_Add h s x =
    (if x \<in> members (seq_table s) then (False, s)
     else (True, s\<lparr>seq_table := table_add h 2 (seq_table s) (seq_size s) x,
                    seq_size := seq_size s + 1\<rparr>))"
  using assms members_bucket [of h "seq_table s" "seq_size s" x]
  by (simp add: Seq_inv_def Seq_Add_def Seq_BucketIndex_def Seq_Resize_def table_add_def
      kLoadFactorThreshold_def Let_def)

lemma Seq_Remove_unfold:
  assumes "Seq_inv h s"
  shows "Seq_Remove h s x =
    (if x \<in> members (seq_table s)
     then (True, s\<lparr>seq_table := table_remove h (seq_table s) x, seq_size := seq_size s - 1\<rparr>)
     else (False, s))"
  using assms members_bucket [of h "seq_table s" "seq_size s" x]
  by (simp add: Seq_inv_def Seq_Remove_def Seq_BucketIndex_def table_remove_def
      erase_first_eq Let_def)

lemma Seq_Contains_unfold:
  assumes "Seq_inv h s"
  shows "Seq_Contains h s x = (x \<in> members (seq_table s))"
  using assms members_bucket [of h "seq_table s" "seq_size s" x]
  by (simp add: Seq_inv_def Seq_Contains_def Seq_BucketIndex_def Let_def)

subsection \<open>The striped set under its invariant\<close>

lemma replicate_update_same: "(replicate n x)[i := x] = replicate n x"
  by (cases "i < n") (simp_all add: list_update_same_conv list_update_beyond)

lemma mutex_lock_free:
  "i < n \<Longrightarrow> mutex_lock (replicate n False) i = Some ((replicate n False)[i := True])"
  by (simp add: mutex_lock_def)

lemma mutex_unlock_held:
  "mutex_unlock ((replicate n False)[i := True]) i = replicate n False"
  by (simp add: mutex_unlock_def replicate_update_same)

lemma lock_each_free: "lock_each (replicate n False) = Some (replicate n True)"
  by (induction n) simp_all

lemma unlock_each_eq: "unlock_each ms = replicate (length ms) False"
  by (simp add: unlock_each_def map_replicate_const)

lemma LoadFactor_gt:
  "0 < length (str_table s) \<Longrightarrow>
   (LoadFactor s > Striped_kLoadFactorThreshold) = (str_size s > 4 * length (str_table s))"
proof -
  assume pos: "0 < length (str_table s)"
  have "(real (str_size s) / real (length (str_table s)) > 4)
        = (real (str_size s) > 4 * real (length (str_table s)))"
    using pos by (simp add: less_divide_eq)
  also have "\<dots> = (str_size s > 4 * length (str_table s))"
    by (metis of_nat_less_iff of_nat_mult of_nat_numeral)
  finally show ?thesis
    by (simp add: LoadFactor_def Striped_kLoadFactorThreshold_def)
qed

lemma LoadFactor_le:
  "0 < length (str_table s) \<Longrightarrow>
   (LoadFactor s \<le> Striped_kLoadFactorThreshold) = (str_size s \<le> 4 * length (str_table s))"
  using LoadFactor_gt [of s] by (simp only: linorder_not_less [symmetric])

lemma Striped_Resize_unfold:
  assumes "0 < length (str_table s)" "str_locks s = replicate L False" "\<not> str_resize_mutex s"
  shows "Striped_Resize h s =
    Some (if str_size s \<le> 4 * length (str_table s) then s
          else s\<lparr>str_table := rehash h (length (str_table s) * 2) (str_table s)\<rparr>)"
proof -
  obtain t l m n where s: "s = \<lparr>str_table = t, str_locks = l, str_resize_mutex = m, str_size = n\<rparr>"
    by (cases s) auto
  have lf: "\<And>l m. LoadFactor \<lparr>str_table = t, str_locks = l, str_resize_mutex = m, str_size = n\<rparr>
               \<le> Striped_kLoadFactorThreshold \<longleftrightarrow> n \<le> 4 * length t"
    using assms(1) by (subst LoadFactor_le) (simp_all add: s)
  show ?thesis
    using assms unfolding s
    by (simp add: Striped_Resize_def Let_def lock_each_free unlock_each_eq lf)
qed

lemma Striped_inv_dest:
  assumes "Striped_inv h s"
  obtains L where "str_locks s = replicate L False" "0 < L"
    "table_inv h (str_table s) (str_size s)" "\<not> str_resize_mutex s"
proof -
  from assms have "str_locks s = replicate (length (str_locks s)) False"
    "0 < length (str_locks s)" "table_inv h (str_table s) (str_size s)" "\<not> str_resize_mutex s"
    unfolding Striped_inv_def by blast+
  then show ?thesis using that by blast
qed

lemma Striped_Contains_unfold:
  assumes "Striped_inv h s"
  shows "Striped_Contains h s x = Some (x \<in> members (str_table s), s)"
proof -
  from assms obtain L where L: "str_locks s = replicate L False" "0 < L"
    and tinv: "table_inv h (str_table s) (str_size s)"
    by (rule Striped_inv_dest)
  have mem: "x \<in> set (str_table s ! (h x mod length (str_table s))) \<longleftrightarrow> x \<in> members (str_table s)"
    using members_bucket [OF tinv] by simp
  have same: "s\<lparr>str_locks := replicate L False\<rparr> = s"
    using L(1) by (metis HashSetStriped.surjective HashSetStriped.update_convs(2))
  show ?thesis
    using L(2) by (simp add: Striped_Contains_def Let_def L(1) mutex_lock_free mutex_unlock_held mem same)
qed

lemma Striped_Remove_unfold:
  assumes "Striped_inv h s"
  shows "Striped_Remove h s x =
    Some (if x \<in> members (str_table s)
          then (True, s\<lparr>str_table := table_remove h (str_table s) x, str_size := str_size s - 1\<rparr>)
          else (False, s))"
proof -
  from assms obtain L where L: "str_locks s = replicate L False" "0 < L"
    and tinv: "table_inv h (str_table s) (str_size s)"
    by (rule Striped_inv_dest)
  have mem: "x \<in> set (str_table s ! (h x mod length (str_table s))) \<longleftrightarrow> x \<in> members (str_table s)"
    using members_bucket [OF tinv] by simp
  have same: "s\<lparr>str_locks := replicate L False\<rparr> = s"
    using L(1) by (metis HashSetStriped.surjective HashSetStriped.update_convs(2))
  have same2: "\<And>t n. s\<lparr>str_table := t, str_locks := replicate L False, str_size := n\<rparr>
       = s\<lparr>str_table := t, str_size := n\<rparr>"
    by (rule HashSetStriped.equality) (simp_all add: L(1))
  show ?thesis
    using L(2)
    by (simp add: Striped_Remove_def Let_def L(1) mutex_lock_free mutex_unlock_held mem same same2
        erase_first_eq table_remove_def)
qed

lemma Striped_Add_unfold:
  assumes "Striped_inv h s"
  shows "Striped_Add h s x =
    Some (if x \<in> members (str_table s) then (False, s)
          else (True, s\<lparr>str_table := table_add h 2 (str_table s) (str_size s) x,
                         str_size := str_size s + 1\<rparr>))"
proof -
  from assms obtain L where L: "str_locks s = replicate L False" "0 < L"
    and tinv: "table_inv h (str_table s) (str_size s)" and m: "\<not> str_resize_mutex s"
    by (rule Striped_inv_dest)
  have pos: "0 < length (str_table s)"
    using tinv by (rule table_inv_pos)
  have mem: "x \<in> set (str_table s ! (h x mod length (str_table s))) \<longleftrightarrow> x \<in> members (str_table s)"
    using members_bucket [OF tinv] by simp
  have same: "s\<lparr>str_locks := replicate L False\<rparr> = s"
    using L(1) by (metis HashSetStriped.surjective HashSetStriped.update_convs(2))
  have same2: "\<And>t n. s\<lparr>str_table := t, str_locks := replicate L False, str_size := n\<rparr>
       = s\<lparr>str_table := t, str_size := n\<rparr>"
    by (rule HashSetStriped.equality) (simp_all add: L(1))
  show ?thesis
  proof (cases "x \<in> members (str_table s)")
    case True
    then show ?thesis
      using L(2)
      by (simp add: Striped_Add_def Let_def L(1) mutex_lock_free mutex_unlock_held mem same)
  next
    case False
    then show ?thesis
      using L(2)
      using pos m
      by (auto simp: Striped_Add_def Let_def L(1) mutex_lock_free mutex_unlock_held mem
          LoadFactor_gt Striped_Resize_unfold [where L = L] table_add_def
          intro!: HashSetStriped.equality)
  qed
qed

subsection \<open>The refinable set under its invariant\<close>

lemma locks_same: "locks ts = ms \<Longrightarrow> ts\<lparr>locks := ms\<rparr> = ts"
  by (cases ts) simp

lemma Refinable_inv_dest:
  assumes "Refinable_inv h s"
  obtains L where "locks (ref_heap s ! ref_state s) = replicate L False"
    "L = length (buckets (ref_heap s ! ref_state s))"
    "table_inv h (buckets (ref_heap s ! ref_state s)) (ref_size s)"
    "ref_state s < length (ref_heap s)" "\<not> ref_resize_mutex s"
  using assms unfolding Refinable_inv_def current_def by blast

lemma MaybeResize_unfold:
  assumes p: "ref_state s < length (ref_heap s)"
    and l: "locks (ref_heap s ! ref_state s) = replicate L False"
    and m: "\<not> ref_resize_mutex s"
  shows "MaybeResize h s (ref_state s) =
    Some (if ref_size s \<le> 4 * length (buckets (ref_heap s ! ref_state s)) then s
          else s\<lparr>ref_heap := ref_heap s @
                    [\<lparr>buckets = rehash h (length (buckets (ref_heap s ! ref_state s)) * 4)
                                 (buckets (ref_heap s ! ref_state s)),
                      locks = replicate (length (buckets (ref_heap s ! ref_state s)) * 4) False\<rparr>],
                  ref_state := length (ref_heap s)\<rparr>)"
proof -
  have id: "(ref_heap s)[ref_state s := (ref_heap s ! ref_state s)\<lparr>locks := replicate L False\<rparr>] = ref_heap s"
    using l by (simp add: locks_same)
  have same: "s\<lparr>ref_resize_mutex := False\<rparr> = s"
    using m by (intro HashSetRefinable.equality) simp_all
  show ?thesis
    using p m
    by (auto simp: MaybeResize_def Let_def kLoadFactorThreshold_def l lock_each_free unlock_each_eq
        set_locks_def TableState_new_def list_update_append1 nth_append id same
        intro!: HashSetRefinable.equality)
qed

lemma set_locks_sel:
  "ref_state (set_locks s p ms) = ref_state s"
  "ref_size (set_locks s p ms) = ref_size s"
  "ref_resize_mutex (set_locks s p ms) = ref_resize_mutex s"
  "length (ref_heap (set_locks s p ms)) = length (ref_heap s)"
  "p < length (ref_heap s) \<Longrightarrow> ref_heap (set_locks s p ms) ! p = (ref_heap s ! p)\<lparr>locks := ms\<rparr>"
  by (simp_all add: set_locks_def)

lemma set_buckets_sel:
  "ref_state (set_buckets s p bs) = ref_state s"
  "ref_size (set_buckets s p bs) = ref_size s"
  "ref_resize_mutex (set_buckets s p bs) = ref_resize_mutex s"
  "length (ref_heap (set_buckets s p bs)) = length (ref_heap s)"
  "p < length (ref_heap s) \<Longrightarrow> ref_heap (set_buckets s p bs) ! p = (ref_heap s ! p)\<lparr>buckets := bs\<rparr>"
  by (simp_all add: set_buckets_def)

lemma set_locks_twice:
  "p < length (ref_heap s) \<Longrightarrow> set_locks (set_locks s p a) p b = set_locks s p b"
  by (simp add: set_locks_def)

lemma set_locks_id:
  "locks (ref_heap s ! p) = ms \<Longrightarrow> set_locks s p ms = s"
  by (simp add: set_locks_def locks_same)

lemma TableState_upd_comm: "ts\<lparr>buckets := bs, locks := b\<rparr> = ts\<lparr>locks := b, buckets := bs\<rparr>"
  by (cases ts) simp

lemma set_locks_buckets:
  "p < length (ref_heap s) \<Longrightarrow>
   set_locks (set_buckets (set_locks s p a) p bs) p b = set_buckets (set_locks s p b) p bs"
  by (simp add: set_locks_def set_buckets_def TableState_upd_comm)

lemma set_locks_size:
  "set_locks (s\<lparr>ref_size := n\<rparr>) p b = (set_locks s p b)\<lparr>ref_size := n\<rparr>"
  by (simp add: set_locks_def)

lemma Refinable_Contains_unfold:
  assumes "Refinable_inv h s"
  shows "Refinable_Contains h s x = Some (x \<in> members (buckets (current s)), s)"
proof -
  from assms obtain L where l: "locks (ref_heap s ! ref_state s) = replicate L False"
    and L: "L = length (buckets (ref_heap s ! ref_state s))"
    and tinv: "table_inv h (buckets (ref_heap s ! ref_state s)) (ref_size s)"
    and p: "ref_state s < length (ref_heap s)"
    by (rule Refinable_inv_dest)
  have i: "h x mod length (buckets (ref_heap s ! ref_state s)) < L"
    using tinv L by (simp add: table_inv_def)
  have mem: "x \<in> set (buckets (ref_heap s ! ref_state s) ! (h x mod length (buckets (ref_heap s ! ref_state s))))
      \<longleftrightarrow> x \<in> members (buckets (current s))"
    using members_bucket [OF tinv] by (simp add: current_def)
  show ?thesis
    using p i
    by (subst Refinable_Contains.simps)
       (simp add: Let_def Refinable_BucketIndex_def l mutex_lock_free mutex_unlock_held
          set_locks_sel set_locks_twice set_locks_id mem)
qed

lemma Refinable_Remove_unfold:
  assumes "Refinable_inv h s"
  shows "Refinable_Remove h s x =
    Some (if x \<in> members (buckets (current s))
          then (True, (set_buckets s (ref_state s) (table_remove h (buckets (current s)) x))
                        \<lparr>ref_size := ref_size s - 1\<rparr>)
          else (False, s))"
proof -
  from assms obtain L where l: "locks (ref_heap s ! ref_state s) = replicate L False"
    and L: "L = length (buckets (ref_heap s ! ref_state s))"
    and tinv: "table_inv h (buckets (ref_heap s ! ref_state s)) (ref_size s)"
    and p: "ref_state s < length (ref_heap s)"
    by (rule Refinable_inv_dest)
  have i: "h x mod length (buckets (ref_heap s ! ref_state s)) < L"
    using tinv L by (simp add: table_inv_def)
  have mem: "x \<in> set (buckets (ref_heap s ! ref_state s) ! (h x mod length (buckets (ref_heap s ! ref_state s))))
      \<longleftrightarrow> x \<in> members (buckets (current s))"
    using members_bucket [OF tinv] by (simp add: current_def)
  show ?thesis
    using p i
    by (subst Refinable_Remove.simps)
       (simp add: Let_def Refinable_BucketIndex_def l mutex_lock_free mutex_unlock_held
          set_locks_sel set_buckets_sel set_locks_twice set_locks_id set_locks_buckets
          set_locks_size mem erase_first_eq table_remove_def current_def)
qed

lemma Refinable_Add_unfold:
  assumes "Refinable_inv h s"
  shows "Refinable_Add h s x =
    Some (if x \<in> members (buckets (current s)) then (False, s)
          else (True,
            let s1 = (set_buckets s (ref_state s)
                       ((buckets (current s))[h x mod length (buckets (current s)) :=
                          buckets (current s) ! (h x mod length (buckets (current s))) @ [x]]))
                     \<lparr>ref_size := ref_size s + 1\<rparr>
            in if ref_size s1 \<le> 4 * length (buckets (current s1)) then s1
               else s1\<lparr>ref_heap := ref_heap s1 @
                      [\<lparr>buckets = rehash h (length (buckets (current s1)) * 4) (buckets (current s1)),
                        locks = replicate (length (buckets (current s1)) * 4) False\<rparr>],
                    ref_state := length (ref_heap s1)\<rparr>))"
proof -
  from assms obtain L where l: "locks (ref_heap s ! ref_state s) = replicate L False"
    and L: "L = length (buckets (ref_heap s ! ref_state s))"
    and tinv: "table_inv h (buckets (ref_heap s ! ref_state s)) (ref_size s)"
    and p: "ref_state s < length (ref_heap s)" and m: "\<not> ref_resize_mutex s"
    by (rule Refinable_inv_dest)
  have i: "h x mod length (buckets (ref_heap s ! ref_state s)) < L"
    using tinv L by (simp add: table_inv_def)
  have mem: "x \<in> set (buckets (ref_heap s ! ref_state s) ! (h x mod length (buckets (ref_heap s ! ref_state s))))
      \<longleftrightarrow> x \<in> members (buckets (current s))"
    using members_bucket [OF tinv] by (simp add: current_def)
  define s1 where "s1 = (set_buckets s (ref_state s)
                       ((buckets (current s))[h x mod length (buckets (current s)) :=
                          buckets (current s) ! (h x mod length (buckets (current s))) @ [x]]))
                     \<lparr>ref_size := ref_size s + 1\<rparr>"
  have s1: "ref_state s1 = ref_state s" "ref_state s1 < length (ref_heap s1)"
    "locks (ref_heap s1 ! ref_state s1) = replicate L False" "\<not> ref_resize_mutex s1"
    "ref_size s1 = ref_size s + 1"
    "length (buckets (ref_heap s1 ! ref_state s1)) = L"
    using p m l L by (simp_all add: s1_def set_buckets_sel set_buckets_def current_def)
  note mr = MaybeResize_unfold [OF s1(2,3,4), of h]
  have main: "Refinable_Add h s x =
    Some (if x \<in> members (buckets (current s)) then (False, s)
          else (True,
            if ref_size s1 \<le> 4 * length (buckets (current s1)) then s1
            else s1\<lparr>ref_heap := ref_heap s1 @
                      [\<lparr>buckets = rehash h (length (buckets (current s1)) * 4) (buckets (current s1)),
                        locks = replicate (length (buckets (current s1)) * 4) False\<rparr>],
                    ref_state := length (ref_heap s1)\<rparr>))"
  proof (cases "x \<in> members (buckets (current s))")
    case True
    then show ?thesis
      using p i
      by (subst Refinable_Add.simps)
         (simp add: Let_def Refinable_BucketIndex_def l mutex_lock_free mutex_unlock_held
            set_locks_sel set_locks_twice set_locks_id mem)
  next
    case False
    have "Refinable_Add h s x =
        (if ref_size s1 > 4 * L then map_option (Pair True) (MaybeResize h s1 (ref_state s1))
         else Some (True, s1))"
      using p i False L
      by (subst Refinable_Add.simps)
         (simp add: Let_def Refinable_BucketIndex_def l mutex_lock_free mutex_unlock_held
            set_locks_sel set_buckets_sel set_locks_twice set_locks_id set_locks_buckets
            set_locks_size mem s1_def current_def kLoadFactorThreshold_def)
    then show ?thesis
      using False s1(6) unfolding mr
      by (simp add: current_def)
  qed
  show ?thesis
    by (simp only: Let_def main s1_def)
qed

subsection \<open>Operations on tables\<close>

lemma table_step_inv:
  assumes "table_inv h tbl n" "0 < f" "table_step h f (tbl, n) c = (r, (tbl', n'))"
  shows "table_inv h tbl' n'"
proof (cases c)
  case (Add x)
  then show ?thesis
    using assms table_add_inv [of h tbl n x f] by (auto split: if_splits)
next
  case (Remove x)
  then show ?thesis
    using assms table_remove_inv [of h tbl n x] by (auto split: if_splits)
qed (use assms in auto)

lemma table_step_load:
  assumes "n \<le> 4 * length tbl" "0 < length tbl" "2 \<le> f"
    "table_step h f (tbl, n) c = (r, (tbl', n'))"
  shows "n' \<le> 4 * length tbl' \<and> 0 < length tbl'"
proof (cases c)
  case (Add x)
  have "0 < length (table_add h f tbl n x)"
    using assms(2,3) by (simp add: length_table_add)
  then show ?thesis
    using assms Add table_add_load [of n tbl f h x] by (auto split: if_splits)
next
  case (Remove x)
  then show ?thesis
    using assms length_table_remove [of h tbl x] by (auto split: if_splits)
qed (use assms in auto)

lemma table_step_sim:
  assumes "table_inv h t1 n" "table_inv h t2 n" "members t1 = members t2" "0 < f1" "0 < f2"
    "table_step h f1 (t1, n) c = (r1, (t1', n1))" "table_step h f2 (t2, n) c = (r2, (t2', n2))"
  shows "r1 = r2 \<and> n1 = n2 \<and> members t1' = members t2'"
  using assms
  by (cases c) (auto simp: table_add_members table_remove_members split: if_splits)

lemma table_exec_inv:
  assumes "table_inv h tbl n" "0 < f" "table_exec h f (tbl, n) cs = (rs, (tbl', n'))"
  shows "table_inv h tbl' n'"
  using assms
proof (induction cs arbitrary: tbl n rs)
  case Nil
  then show ?case by simp
next
  case (Cons c cs)
  obtain r t1 n1 where st: "table_step h f (tbl, n) c = (r, (t1, n1))"
    by (metis prod.exhaust)
  obtain rs1 where ex: "table_exec h f (t1, n1) cs = (rs1, (tbl', n'))"
    using Cons.prems(3) st by (auto split: prod.splits)
  show ?case
    using Cons.IH [OF table_step_inv [OF Cons.prems(1,2) st] Cons.prems(2) ex] .
qed

lemma table_exec_load:
  assumes "n \<le> 4 * length tbl" "0 < length tbl" "2 \<le> f"
    "table_exec h f (tbl, n) cs = (rs, (tbl', n'))"
  shows "n' \<le> 4 * length tbl'"
  using assms
proof (induction cs arbitrary: tbl n rs)
  case Nil
  then show ?case by simp
next
  case (Cons c cs)
  obtain r t1 n1 where st: "table_step h f (tbl, n) c = (r, (t1, n1))"
    by (metis prod.exhaust)
  obtain rs1 where ex: "table_exec h f (t1, n1) cs = (rs1, (tbl', n'))"
    using Cons.prems(4) st by (auto split: prod.splits)
  have "n1 \<le> 4 * length t1" "0 < length t1"
    using table_step_load [OF Cons.prems(1,2,3) st] by simp_all
  then show ?case
    using Cons.IH [OF _ _ Cons.prems(3) ex] by blast
qed

lemma table_exec_sim:
  assumes "table_inv h t1 n" "table_inv h t2 n" "members t1 = members t2" "0 < f1" "0 < f2"
    "table_exec h f1 (t1, n) cs = (rs1, (t1', n1))" "table_exec h f2 (t2, n) cs = (rs2, (t2', n2))"
  shows "rs1 = rs2 \<and> n1 = n2 \<and> members t1' = members t2'"
  using assms
proof (induction cs arbitrary: t1 t2 n rs1 rs2)
  case Nil
  then show ?case by simp
next
  case (Cons c cs)
  obtain r a1 m1 where st1: "table_step h f1 (t1, n) c = (r, (a1, m1))"
    by (metis prod.exhaust)
  obtain r' a2 m2 where st2: "table_step h f2 (t2, n) c = (r', (a2, m2))"
    by (metis prod.exhaust)
  have sim: "r = r'" "m1 = m2" "members a1 = members a2"
    using table_step_sim [OF Cons.prems(1,2,3,4,5) st1 st2] by simp_all
  obtain q1 where ex1: "table_exec h f1 (a1, m1) cs = (q1, (t1', n1))" and rs1: "rs1 = r # q1"
    using Cons.prems(6) st1 by (auto split: prod.splits)
  obtain q2 where ex2: "table_exec h f2 (a2, m1) cs = (q2, (t2', n2))" and rs2: "rs2 = r # q2"
    using Cons.prems(7) st2 sim by (auto split: prod.splits)
  have i1: "table_inv h a1 m1"
    using table_step_inv [OF Cons.prems(1,4) st1] .
  have i2: "table_inv h a2 m1"
    using table_step_inv [OF Cons.prems(2,5) st2] sim by simp
  show ?case
    using Cons.IH [OF i1 i2 sim(3) Cons.prems(4,5) ex1 ex2] rs1 rs2 by simp
qed

subsection \<open>Each variant runs the table operations\<close>

lemma Seq_step_table:
  assumes "Seq_inv h s"
  shows "table_step h 2 (Seq_view s) c = (fst (Seq_step h s c), Seq_view (snd (Seq_step h s c)))"
  using assms
  by (cases c)
     (simp_all add: Seq_Add_unfold Seq_Remove_unfold Seq_Contains_unfold Seq_view_def Seq_Size_def)

lemma Seq_step_inv:
  assumes "Seq_inv h s"
  shows "Seq_inv h (snd (Seq_step h s c))"
proof -
  have "table_inv h (seq_table s) (seq_size s)"
    using assms by (simp add: Seq_inv_def)
  moreover have "table_step h 2 (seq_table s, seq_size s) c =
      (fst (Seq_step h s c), (seq_table (snd (Seq_step h s c)), seq_size (snd (Seq_step h s c))))"
    using Seq_step_table [OF assms, of c] by (simp add: Seq_view_def)
  ultimately show ?thesis
    unfolding Seq_inv_def using table_step_inv [of h _ _ 2] by fastforce
qed

lemma Seq_exec_table:
  assumes "Seq_inv h s"
  shows "table_exec h 2 (Seq_view s) cs = (fst (Seq_exec h s cs), Seq_view (snd (Seq_exec h s cs)))
         \<and> Seq_inv h (snd (Seq_exec h s cs))"
  using assms
proof (induction cs arbitrary: s)
  case Nil
  then show ?case by simp
next
  case (Cons c cs)
  note st = Seq_step_table [OF Cons.prems, of c]
  note IH = Cons.IH [OF Seq_step_inv [OF Cons.prems, of c]]
  show ?case
    using st IH by (simp add: split_beta)
qed

lemma Striped_step_table:
  assumes "Striped_inv h s"
  shows "\<exists>s'. Striped_step h s c = Some (fst (table_step h 2 (Striped_view s) c), s') \<and>
              Striped_view s' = snd (table_step h 2 (Striped_view s) c) \<and>
              Striped_inv h s'"
proof -
  have ti: "table_inv h (str_table s) (str_size s)"
    using assms by (simp add: Striped_inv_def)
  have post: "\<And>r t n. table_step h 2 (str_table s, str_size s) c = (r, (t, n)) \<Longrightarrow>
      Striped_inv h (s\<lparr>str_table := t, str_size := n\<rparr>)"
    using assms table_step_inv [OF ti, of 2 c] by (simp add: Striped_inv_def)
  show ?thesis
  proof (cases c)
    case (Add x)
    then show ?thesis
      using post assms by (auto simp: Striped_Add_unfold Striped_view_def)
  next
    case (Remove x)
    then show ?thesis
      using post assms by (auto simp: Striped_Remove_unfold Striped_view_def)
  next
    case (Contains x)
    then show ?thesis
      using assms by (simp add: Striped_Contains_unfold Striped_view_def)
  next
    case Size
    then show ?thesis
      using assms by (simp add: Striped_Size_def Striped_view_def)
  qed
qed

lemma Striped_exec_table:
  assumes "Striped_inv h s"
  shows "\<exists>s'. Striped_exec h s cs = Some (fst (table_exec h 2 (Striped_view s) cs), s') \<and>
              Striped_view s' = snd (table_exec h 2 (Striped_view s) cs) \<and>
              Striped_inv h s'"
  using assms
proof (induction cs arbitrary: s)
  case Nil
  then show ?case by simp
next
  case (Cons c cs)
  from Striped_step_table [OF Cons.prems, of c]
  obtain s1 where st: "Striped_step h s c = Some (fst (table_step h 2 (Striped_view s) c), s1)"
    "Striped_view s1 = snd (table_step h 2 (Striped_view s) c)" "Striped_inv h s1"
    by blast
  from Cons.IH [OF st(3)]
  obtain s2 where ex: "Striped_exec h s1 cs = Some (fst (table_exec h 2 (Striped_view s1) cs), s2)"
    "Striped_view s2 = snd (table_exec h 2 (Striped_view s1) cs)" "Striped_inv h s2"
    by blast
  show ?case
    using st ex by (simp add: split_beta)
qed

lemma Refinable_Add_spec:
  assumes inv: "Refinable_inv h s" and new: "x \<notin> members (buckets (current s))"
  shows "\<exists>s'. Refinable_Add h s x = Some (True, s') \<and> Refinable_inv h s' \<and>
              buckets (current s') = table_add h 4 (buckets (current s)) (ref_size s) x \<and>
              ref_size s' = ref_size s + 1"
proof -
  from inv obtain L where l: "locks (ref_heap s ! ref_state s) = replicate L False"
    and L: "L = length (buckets (ref_heap s ! ref_state s))"
    and tinv: "table_inv h (buckets (ref_heap s ! ref_state s)) (ref_size s)"
    and p: "ref_state s < length (ref_heap s)" and m: "\<not> ref_resize_mutex s"
    by (rule Refinable_inv_dest)
  let ?tbl = "buckets (ref_heap s ! ref_state s)"
  have ti: "table_inv h (table_add h 4 ?tbl (ref_size s) x) (ref_size s + 1)"
    using table_add_inv [OF tinv] new by (simp add: current_def)
  have len: "length (table_add h 4 ?tbl (ref_size s) x)
      = (if ref_size s + 1 > 4 * L then L * 4 else L)"
    by (simp add: length_table_add L)
  show ?thesis
    using new p m l ti len L
    by (auto simp: Refinable_Add_unfold [OF inv] Let_def Refinable_inv_def current_def
        set_buckets_def table_add_def nth_append not_le)
qed

lemma Refinable_Remove_spec:
  assumes inv: "Refinable_inv h s" and old: "x \<in> members (buckets (current s))"
  shows "\<exists>s'. Refinable_Remove h s x = Some (True, s') \<and> Refinable_inv h s' \<and>
              buckets (current s') = table_remove h (buckets (current s)) x \<and>
              ref_size s' = ref_size s - 1"
proof -
  from inv obtain L where l: "locks (ref_heap s ! ref_state s) = replicate L False"
    and L: "L = length (buckets (ref_heap s ! ref_state s))"
    and tinv: "table_inv h (buckets (ref_heap s ! ref_state s)) (ref_size s)"
    and p: "ref_state s < length (ref_heap s)" and m: "\<not> ref_resize_mutex s"
    by (rule Refinable_inv_dest)
  let ?tbl = "buckets (ref_heap s ! ref_state s)"
  have ti: "table_inv h (table_remove h ?tbl x) (ref_size s - 1)"
    using table_remove_inv [OF tinv] old by (simp add: current_def)
  show ?thesis
    using old p m l ti L
    by (auto simp: Refinable_Remove_unfold [OF inv] Refinable_inv_def current_def
        set_buckets_def length_table_remove)
qed

lemma Refinable_step_table:
  assumes "Refinable_inv h s"
  shows "\<exists>s'. Refinable_step h s c = Some (fst (table_step h 4 (Refinable_view s) c), s') \<and>
              Refinable_view s' = snd (table_step h 4 (Refinable_view s) c) \<and>
              Refinable_inv h s'"
proof (cases c)
  case (Add x)
  show ?thesis
  proof (cases "x \<in> members (buckets (current s))")
    case True
    then show ?thesis
      using assms Add by (simp add: Refinable_Add_unfold Refinable_view_def)
  next
    case False
    from Refinable_Add_spec [OF assms False] show ?thesis
      using Add False by (auto simp: Refinable_view_def)
  qed
next
  case (Remove x)
  show ?thesis
  proof (cases "x \<in> members (buckets (current s))")
    case True
    from Refinable_Remove_spec [OF assms True] show ?thesis
      using Remove True by (auto simp: Refinable_view_def)
  next
    case False
    then show ?thesis
      using assms Remove by (simp add: Refinable_Remove_unfold Refinable_view_def)
  qed
next
  case (Contains x)
  then show ?thesis
    using assms by (simp add: Refinable_Contains_unfold Refinable_view_def)
next
  case Size
  then show ?thesis
    using assms by (simp add: Refinable_Size_def Refinable_view_def)
qed

lemma Refinable_exec_table:
  assumes "Refinable_inv h s"
  shows "\<exists>s'. Refinable_exec h s cs = Some (fst (table_exec h 4 (Refinable_view s) cs), s') \<and>
              Refinable_view s' = snd (table_exec h 4 (Refinable_view s) cs) \<and>
              Refinable_inv h s'"
  using assms
proof (induction cs arbitrary: s)
  case Nil
  then show ?case by simp
next
  case (Cons c cs)
  from Refinable_step_table [OF Cons.prems, of c]
  obtain s1 where st: "Refinable_step h s c = Some (fst (table_step h 4 (Refinable_view s) c), s1)"
    "Refinable_view s1 = snd (table_step h 4 (Refinable_view s) c)" "Refinable_inv h s1"
    by blast
  from Cons.IH [OF st(3)]
  obtain s2 where ex: "Refinable_exec h s1 cs = Some (fst (table_exec h 4 (Refinable_view s1) cs), s2)"
    "Refinable_view s2 = snd (table_exec h 4 (Refinable_view s1) cs)" "Refinable_inv h s2"
    by blast
  show ?case
    using st ex by (simp add: split_beta)
qed

subsection \<open>Runs from the constructor\<close>

lemma Seq_new_inv:
  "0 < cap \<Longrightarrow> \<exists>s. Seq_new cap = Some s \<and> Seq_inv h s \<and> Seq_view s = (replicate cap [], 0)"
  by (simp add: Seq_new_def Seq_inv_def Seq_view_def table_inv_replicate)

lemma Striped_new_inv:
  "0 < cap \<Longrightarrow> \<exists>s. Striped_new cap = Some s \<and> Striped_inv h s \<and> Striped_view s = (replicate cap [], 0)"
  by (simp add: Striped_new_def Striped_inv_def Striped_view_def table_inv_replicate)

lemma Refinable_new_inv:
  "0 < cap \<Longrightarrow> \<exists>s. Refinable_new cap = Some s \<and> Refinable_inv h s \<and> Refinable_view s = (replicate cap [], 0)"
  by (simp add: Refinable_new_def Refinable_inv_def Refinable_view_def current_def
      TableState_new_def table_inv_replicate)

lemma Seq_run_table:
  assumes "0 < cap"
  shows "\<exists>s. Seq_run h cap cs = Some (fst (table_exec h 2 (replicate cap [], 0) cs), s) \<and>
             Seq_view s = snd (table_exec h 2 (replicate cap [], 0) cs) \<and> Seq_inv h s"
proof -
  from Seq_new_inv [OF assms, of h] obtain s0 where
    s0: "Seq_new cap = Some s0" "Seq_inv h s0" "Seq_view s0 = (replicate cap [], 0)"
    by blast
  show ?thesis
    using Seq_exec_table [OF s0(2), of cs] s0(1,3)
    by (simp add: Seq_run_def prod_eq_iff)
qed

lemma Striped_run_table:
  assumes "0 < cap"
  shows "\<exists>s. Striped_run h cap cs = Some (fst (table_exec h 2 (replicate cap [], 0) cs), s) \<and>
             Striped_view s = snd (table_exec h 2 (replicate cap [], 0) cs) \<and> Striped_inv h s"
proof -
  from Striped_new_inv [OF assms, of h] obtain s0 where
    s0: "Striped_new cap = Some s0" "Striped_inv h s0" "Striped_view s0 = (replicate cap [], 0)"
    by blast
  show ?thesis
    using Striped_exec_table [OF s0(2), of cs] s0(1,3)
    by (simp add: Striped_run_def)
qed

lemma Refinable_run_table:
  assumes "0 < cap"
  shows "\<exists>s. Refinable_run h cap cs = Some (fst (table_exec h 4 (replicate cap [], 0) cs), s) \<and>
             Refinable_view s = snd (table_exec h 4 (replicate cap [], 0) cs) \<and> Refinable_inv h s"
proof -
  from Refinable_new_inv [OF assms, of h] obtain s0 where
    s0: "Refinable_new cap = Some s0" "Refinable_inv h s0" "Refinable_view s0 = (replicate cap [], 0)"
    by blast
  show ?thesis
    using Refinable_exec_table [OF s0(2), of cs] s0(1,3)
    by (simp add: Refinable_run_def)
qed

lemma table_exec_factors:
  assumes "0 < cap"
  shows "fst (table_exec h 4 (replicate cap [], 0) cs) = fst (table_exec h 2 (replicate cap [], 0) cs) \<and>
         members (fst (snd (table_exec h 4 (replicate cap [], 0) cs)))
           = members (fst (snd (table_exec h 2 (replicate cap [], 0) cs)))"
proof -
  have ti: "table_inv h (replicate cap []) 0"
    using assms by (rule table_inv_replicate)
  obtain r4 t4 n4 where e4: "table_exec h 4 (replicate cap [], 0) cs = (r4, (t4, n4))"
    by (metis prod.exhaust)
  obtain r2 t2 n2 where e2: "table_exec h 2 (replicate cap [], 0) cs = (r2, (t2, n2))"
    by (metis prod.exhaust)
  show ?thesis
    using table_exec_sim [OF ti ti refl _ _ e4 e2] by (simp add: e4 e2)
qed

subsection \<open>What Add and Remove do to the entries\<close>

lemma table_inv_code [code]:
  "table_inv hash tbl n \<longleftrightarrow>
     0 < length tbl \<and>
     (\<forall>i \<in> set [0..<length tbl]. \<forall>x \<in> set (tbl ! i). hash x mod length tbl = i) \<and>
     (\<forall>i \<in> set [0..<length tbl]. distinct (tbl ! i)) \<and>
     n = sum_list (map length tbl)"
  by (auto simp: table_inv_def)

lemma mset_concat_table_add:
  assumes "0 < length tbl" "0 < f"
  shows "mset (concat (table_add h f tbl n x)) = add_mset x (mset (concat tbl))"
proof -
  have il: "h x mod length tbl < length tbl" and pos: "0 < length tbl * f"
    using assms by simp_all
  show ?thesis
    using mset_concat_update [OF il, of x] mset_concat_rehash [OF pos, of h]
    by (simp add: table_add_def Let_def)
qed

lemma mset_concat_erase:
  "i < length t \<Longrightarrow> x \<in> set (t ! i) \<Longrightarrow>
   mset (concat (t[i := remove1 x (t ! i)])) = mset (concat t) - {#x#}"
proof (induction t arbitrary: i)
  case Nil
  then show ?case by simp
next
  case (Cons b t)
  show ?case
  proof (cases i)
    case 0
    then show ?thesis
      using Cons.prems by simp
  next
    case (Suc j)
    then have j: "j < length t" "x \<in> set (t ! j)"
      using Cons.prems by simp_all
    then have "x \<in># mset (concat t)"
      using nth_mem by fastforce
    then show ?thesis
      using Cons.IH [OF j] Suc by simp
  qed
qed

lemma mset_concat_table_remove:
  assumes "table_inv h tbl n" "x \<in> members tbl"
  shows "mset (concat (table_remove h tbl x)) = mset (concat tbl) - {#x#}"
proof -
  have "h x mod length tbl < length tbl"
    using assms(1) by (simp add: table_inv_def)
  moreover have "x \<in> set (tbl ! (h x mod length tbl))"
    using assms members_bucket by fast
  ultimately show ?thesis
    by (simp add: table_remove_def Let_def mset_concat_erase)
qed

lemma Seq_Add_contract:
  assumes inv: "Seq_inv h s"
  shows "\<exists>s'. Seq_Add h s x = (x \<notin> members (seq_table s), s') \<and>
     (if x \<in> members (seq_table s) then s' = s
      else mset (concat (seq_table s')) = add_mset x (mset (concat (seq_table s))) \<and>
           Seq_Size s' = Seq_Size s + 1) \<and>
     Seq_Contains h s' x \<and> Seq_Add h s' x = (False, s')"
proof (cases "x \<in> members (seq_table s)")
  case True
  then show ?thesis
    using inv by (simp add: Seq_Add_unfold Seq_Contains_unfold)
next
  case False
  let ?s' = "s\<lparr>seq_table := table_add h 2 (seq_table s) (seq_size s) x, seq_size := seq_size s + 1\<rparr>"
  have ti: "table_inv h (seq_table s) (seq_size s)"
    using inv by (simp add: Seq_inv_def)
  have inv': "Seq_inv h ?s'"
    using table_add_inv [OF ti False, of 2] by (simp add: Seq_inv_def)
  have mem: "x \<in> members (seq_table ?s')"
    using table_add_members [OF ti, of 2 x] by simp
  have ms: "mset (concat (seq_table ?s')) = add_mset x (mset (concat (seq_table s)))"
    using mset_concat_table_add [OF table_inv_pos [OF ti], of 2 h "seq_size s" x] by simp
  show ?thesis
    using False ms mem Seq_Add_unfold [OF inv, of x] Seq_Add_unfold [OF inv', of x]
      Seq_Contains_unfold [OF inv', of x]
    by (simp add: Seq_Size_def)
qed

lemma Striped_Add_contract:
  assumes inv: "Striped_inv h s"
  shows "\<exists>s'. Striped_Add h s x = Some (x \<notin> members (str_table s), s') \<and>
     (if x \<in> members (str_table s) then s' = s
      else mset (concat (str_table s')) = add_mset x (mset (concat (str_table s))) \<and>
           Striped_Size s' = Striped_Size s + 1) \<and>
     Striped_Contains h s' x = Some (True, s') \<and> Striped_Add h s' x = Some (False, s')"
proof (cases "x \<in> members (str_table s)")
  case True
  then show ?thesis
    using inv by (simp add: Striped_Add_unfold Striped_Contains_unfold)
next
  case False
  let ?s' = "s\<lparr>str_table := table_add h 2 (str_table s) (str_size s) x, str_size := str_size s + 1\<rparr>"
  have ti: "table_inv h (str_table s) (str_size s)"
    using inv by (simp add: Striped_inv_def)
  have inv': "Striped_inv h ?s'"
    using table_add_inv [OF ti False, of 2] inv by (simp add: Striped_inv_def)
  have mem: "x \<in> members (str_table ?s')"
    using table_add_members [OF ti, of 2 x] by simp
  have ms: "mset (concat (str_table ?s')) = add_mset x (mset (concat (str_table s)))"
    using mset_concat_table_add [OF table_inv_pos [OF ti], of 2 h "str_size s" x] by simp
  show ?thesis
    using False ms mem Striped_Add_unfold [OF inv, of x] Striped_Add_unfold [OF inv', of x]
      Striped_Contains_unfold [OF inv', of x]
    by (simp add: Striped_Size_def)
qed

lemma Refinable_Add_contract:
  assumes inv: "Refinable_inv h s"
  shows "\<exists>s'. Refinable_Add h s x = Some (x \<notin> members (buckets (current s)), s') \<and>
     (if x \<in> members (buckets (current s)) then s' = s
      else mset (concat (buckets (current s'))) = add_mset x (mset (concat (buckets (current s)))) \<and>
           Refinable_Size s' = Refinable_Size s + 1) \<and>
     Refinable_Contains h s' x = Some (True, s') \<and> Refinable_Add h s' x = Some (False, s')"
proof (cases "x \<in> members (buckets (current s))")
  case True
  then show ?thesis
    using inv by (simp add: Refinable_Add_unfold Refinable_Contains_unfold)
next
  case False
  from Refinable_Add_spec [OF inv False] obtain s' where
    s': "Refinable_Add h s x = Some (True, s')" "Refinable_inv h s'"
      "buckets (current s') = table_add h 4 (buckets (current s)) (ref_size s) x"
      "ref_size s' = ref_size s + 1"
    by blast
  have ti: "table_inv h (buckets (current s)) (ref_size s)"
    using inv by (simp add: Refinable_inv_def)
  have mem: "x \<in> members (buckets (current s'))"
    using table_add_members [OF ti, of 4 x] s'(3) by simp
  have ms: "mset (concat (buckets (current s'))) = add_mset x (mset (concat (buckets (current s))))"
    using mset_concat_table_add [OF table_inv_pos [OF ti], of 4 h "ref_size s" x] s'(3) by simp
  show ?thesis
    using False ms mem s'(1,4) Refinable_Add_unfold [OF s'(2), of x]
      Refinable_Contains_unfold [OF s'(2), of x]
    by (simp add: Refinable_Size_def)
qed

lemma Seq_Remove_contract:
  assumes inv: "Seq_inv h s"
  shows "\<exists>s'. Seq_Remove h s x = (x \<in> members (seq_table s), s') \<and>
     (if x \<in> members (seq_table s)
      then mset (concat (seq_table s')) = mset (concat (seq_table s)) - {#x#} \<and>
           Seq_Size s' + 1 = Seq_Size s
      else s' = s)"
proof -
  have ti: "table_inv h (seq_table s) (seq_size s)"
    using inv by (simp add: Seq_inv_def)
  show ?thesis
    using Seq_Remove_unfold [OF inv, of x] mset_concat_table_remove [OF ti, of x]
      table_inv_nonempty [OF ti, of x]
    by (simp add: Seq_Size_def)
qed

lemma Striped_Remove_contract:
  assumes inv: "Striped_inv h s"
  shows "\<exists>s'. Striped_Remove h s x = Some (x \<in> members (str_table s), s') \<and>
     (if x \<in> members (str_table s)
      then mset (concat (str_table s')) = mset (concat (str_table s)) - {#x#} \<and>
           Striped_Size s' + 1 = Striped_Size s
      else s' = s)"
proof -
  have ti: "table_inv h (str_table s) (str_size s)"
    using inv by (simp add: Striped_inv_def)
  show ?thesis
    using Striped_Remove_unfold [OF inv, of x] mset_concat_table_remove [OF ti, of x]
      table_inv_nonempty [OF ti, of x]
    by (simp add: Striped_Size_def)
qed

lemma Refinable_Remove_contract:
  assumes inv: "Refinable_inv h s"
  shows "\<exists>s'. Refinable_Remove h s x = Some (x \<in> members (buckets (current s)), s') \<and>
     (if x \<in> members (buckets (current s))
      then mset (concat (buckets (current s'))) = mset (concat (buckets (current s))) - {#x#} \<and>
           Refinable_Size s' + 1 = Refinable_Size s
      else s' = s)"
proof (cases "x \<in> members (buckets (current s))")
  case True
  have ti: "table_inv h (buckets (current s)) (ref_size s)"
    using inv by (simp add: Refinable_inv_def)
  from Refinable_Remove_spec [OF inv True] obtain s' where
    s': "Refinable_Remove h s x = Some (True, s')"
      "buckets (current s') = table_remove h (buckets (current s)) x"
      "ref_size s' = ref_size s - 1"
    by blast
  show ?thesis
    using True s' mset_concat_table_remove [OF ti True] table_inv_nonempty [OF ti True]
    by (simp add: Refinable_Size_def)
next
  case False
  then show ?thesis
    using inv by (simp add: Refinable_Remove_unfold)
qed

subsection \<open>Insertion histories and resizes\<close>

lemma table_exec_append:
  "table_exec h f v (cs @ ds) =
     (case table_exec h f v cs of
        (rs, v') \<Rightarrow> (case table_exec h f v' ds of (rs', v'') \<Rightarrow> (rs @ rs', v'')))"
  by (induction cs arbitrary: v) (auto split: prod.splits)

lemma table_exec_adds:
  assumes "table_inv h tbl n" "0 < f" "distinct xs" "set xs \<inter> members tbl = {}"
  shows "\<exists>tbl'. table_exec h f (tbl, n) (map Add xs)
            = (replicate (length xs) (Flag True), (tbl', n + length xs)) \<and>
          members tbl' = members tbl \<union> set xs \<and> table_inv h tbl' (n + length xs)"
  using assms
proof (induction xs arbitrary: tbl n)
  case Nil
  then show ?case by simp
next
  case (Cons x xs)
  have new: "x \<notin> members tbl"
    using Cons.prems(4) by simp
  let ?t = "table_add h f tbl n x"
  have ti: "table_inv h ?t (n + 1)"
    using table_add_inv [OF Cons.prems(1) new Cons.prems(2)] .
  have mem: "members ?t = insert x (members tbl)"
    using table_add_members [OF Cons.prems(1,2)] .
  have disj: "set xs \<inter> members ?t = {}"
    using Cons.prems(3,4) mem by auto
  have d: "distinct xs"
    using Cons.prems(3) by simp
  from Cons.IH [OF ti Cons.prems(2) d disj] obtain tbl' where
    e: "table_exec h f (?t, n + 1) (map Add xs)
          = (replicate (length xs) (Flag True), (tbl', n + 1 + length xs))"
    and m: "members tbl' = members ?t \<union> set xs"
    and i: "table_inv h tbl' (n + 1 + length xs)"
    by blast
  show ?case
    using new e m i mem by (auto simp: add.commute add.left_commute)
qed

lemma table_exec_adds_size:
  assumes "0 < cap" "0 < f" "distinct xs"
  shows "\<exists>tbl'. table_exec h f (replicate cap [], 0) (map Add xs @ [Size])
            = (replicate (length xs) (Flag True) @ [Count (length xs)], (tbl', length xs)) \<and>
          members tbl' = set xs"
proof -
  have ti: "table_inv h (replicate cap []) 0"
    using assms(1) by (rule table_inv_replicate)
  from table_exec_adds [OF ti assms(2,3)] obtain tbl' where
    "table_exec h f (replicate cap [], 0) (map Add xs)
            = (replicate (length xs) (Flag True), (tbl', 0 + length xs))"
    "members tbl' = members (replicate cap []) \<union> set xs"
    by (auto simp: members_replicate)
  then show ?thesis
    by (simp add: table_exec_append members_replicate)
qed

lemma Seq_Resize_preserves:
  assumes "Seq_inv h s"
  shows "mset (concat (seq_table (Seq_Resize h s))) = mset (concat (seq_table s)) \<and>
         Seq_Size (Seq_Resize h s) = Seq_Size s \<and>
         Seq_inv h (Seq_Resize h s) \<and>
         length (seq_table (Seq_Resize h s)) = 2 * length (seq_table s)"
proof -
  have ti: "table_inv h (seq_table s) (seq_size s)"
    using assms by (simp add: Seq_inv_def)
  have pos: "0 < length (seq_table s) * 2"
    using table_inv_pos [OF ti] by simp
  show ?thesis
    using mset_concat_rehash [OF pos, of h "seq_table s"] table_inv_rehash [OF ti pos]
    by (simp add: Seq_Resize_def Let_def Seq_Size_def Seq_inv_def length_rehash)
qed

lemma Striped_Resize_preserves:
  assumes "Striped_inv h s"
  shows "\<exists>s'. Striped_Resize h s = Some s' \<and>
         mset (concat (str_table s')) = mset (concat (str_table s)) \<and>
         Striped_Size s' = Striped_Size s \<and>
         Striped_inv h s' \<and>
         length (str_table s') =
           (if Striped_Size s > 4 * length (str_table s) then 2 * length (str_table s)
            else length (str_table s))"
proof -
  from assms obtain L where L: "str_locks s = replicate L False" "0 < L"
    and ti: "table_inv h (str_table s) (str_size s)" and m: "\<not> str_resize_mutex s"
    by (rule Striped_inv_dest)
  have pos: "0 < length (str_table s) * 2"
    using table_inv_pos [OF ti] by simp
  show ?thesis
    using mset_concat_rehash [OF pos, of h "str_table s"] table_inv_rehash [OF ti pos] assms
    by (auto simp: Striped_Resize_unfold [OF table_inv_pos [OF ti] L(1) m]
        Striped_Size_def Striped_inv_def length_rehash)
qed

lemma MaybeResize_preserves:
  assumes "Refinable_inv h s"
  shows "\<exists>s'. MaybeResize h s (ref_state s) = Some s' \<and>
         mset (concat (buckets (current s'))) = mset (concat (buckets (current s))) \<and>
         Refinable_Size s' = Refinable_Size s \<and>
         Refinable_inv h s' \<and>
         length (buckets (current s')) =
           (if Refinable_Size s > 4 * length (buckets (current s))
            then 4 * length (buckets (current s))
            else length (buckets (current s)))"
proof -
  from assms obtain L where l: "locks (ref_heap s ! ref_state s) = replicate L False"
    and L: "L = length (buckets (ref_heap s ! ref_state s))"
    and ti: "table_inv h (buckets (ref_heap s ! ref_state s)) (ref_size s)"
    and p: "ref_state s < length (ref_heap s)" and m: "\<not> ref_resize_mutex s"
    by (rule Refinable_inv_dest)
  have pos: "0 < length (buckets (ref_heap s ! ref_state s)) * 4"
    using table_inv_pos [OF ti] by simp
  show ?thesis
    using mset_concat_rehash [OF pos, of h "buckets (ref_heap s ! ref_state s)"]
      table_inv_rehash [OF ti pos] assms
    by (auto simp: MaybeResize_unfold [OF p l m] Refinable_Size_def Refinable_inv_def
        current_def length_rehash)
qed

subsection \<open>Publishing a snapshot\<close>

lemma all_free_replicate: "True \<notin> set ms \<Longrightarrow> ms = replicate (length ms) False"
  by (induction ms) auto

lemma rehash_empty: "rehash h n [] = replicate n []"
  by (simp add: rehash_def)

lemma mset_concat_rehash_any:
  "tbl = [] \<or> 0 < n \<Longrightarrow> mset (concat (rehash h n tbl)) = mset (concat tbl)"
  by (auto simp: rehash_empty mset_concat_rehash)

lemma MaybeResize_publishes:
  assumes p: "ref_state s < length (ref_heap s)"
    and cur: "ref_state s = expected_state"
    and m: "\<not> ref_resize_mutex s"
    and load: "ref_size s > kLoadFactorThreshold * length (buckets (current s))"
    and free: "True \<notin> set (locks (current s))"
  shows "\<exists>s'. MaybeResize h s expected_state = Some s' \<and>
     ref_state s' = length (ref_heap s) \<and>
     ref_heap s' = ref_heap s @ [current s'] \<and>
     length (buckets (current s')) = 4 * length (buckets (current s)) \<and>
     length (locks (current s')) = length (buckets (current s')) \<and>
     True \<notin> set (locks (current s')) \<and>
     (\<forall>i < length (buckets (current s')).
        buckets (current s') ! i =
          filter (\<lambda>x. h x mod length (buckets (current s')) = i) (concat (buckets (current s)))) \<and>
     mset (concat (buckets (current s'))) = mset (concat (buckets (current s))) \<and>
     ref_size s' = ref_size s \<and>
     \<not> ref_resize_mutex s'"
proof -
  let ?old = "buckets (ref_heap s ! ref_state s)"
  have l: "locks (ref_heap s ! ref_state s) = replicate (length (locks (current s))) False"
    using all_free_replicate [OF free] by (simp add: current_def)
  have ld: "\<not> ref_size s \<le> 4 * length ?old"
    using load by (simp add: kLoadFactorThreshold_def current_def)
  have ms: "mset (concat (rehash h (length ?old * 4) ?old)) = mset (concat ?old)"
    by (rule mset_concat_rehash_any) auto
  have mul: "length ?old * 4 = 4 * length ?old"
    by simp
  show ?thesis
    unfolding cur [symmetric] MaybeResize_unfold [OF p l m, of h]
    using ld m ms
    by (simp add: current_def nth_append length_rehash nth_rehash mul)
qed

subsection \<open>The locks of the striped set\<close>

lemma lock_each_Some:
  "lock_each ms = Some ls \<Longrightarrow> ms = replicate (length ms) False \<and> ls = replicate (length ms) True"
  by (induction ms arbitrary: ls) (auto split: if_splits)

lemma mutex_lock_unlock:
  "mutex_lock ms i = Some held \<Longrightarrow> mutex_unlock held i = ms"
  by (auto simp: mutex_lock_def mutex_unlock_def list_update_same_conv split: if_splits)
     (metis list_update_beyond list_update_id not_le_imp_less)

lemma Striped_Resize_locks:
  assumes "Striped_Resize h s = Some s'"
  shows "str_locks s' = str_locks s"
proof -
  from assms obtain ls where ls: "lock_each (str_locks s) = Some ls"
    by (auto simp: Striped_Resize_def Let_def split: if_splits option.splits)
  from lock_each_Some [OF ls] have "str_locks s = replicate (length (str_locks s)) False"
    "length ls = length (str_locks s)"
    by simp_all
  then show ?thesis
    using assms ls
    by (auto simp: Striped_Resize_def Let_def unlock_each_eq split: if_splits)
qed

lemma Striped_Add_locks:
  assumes "Striped_Add h s x = Some (b, s')"
  shows "str_locks s' = str_locks s"
proof -
  from assms obtain held where
    held: "mutex_lock (str_locks s) (h x mod length (str_locks s)) = Some held"
    by (auto simp: Striped_Add_def Let_def split: option.splits)
  note un = mutex_lock_unlock [OF held]
  show ?thesis
    using assms held un
    by (auto simp: Striped_Add_def Let_def dest!: Striped_Resize_locks split: if_splits)
qed

lemma Striped_Remove_locks:
  assumes "Striped_Remove h s x = Some (b, s')"
  shows "str_locks s' = str_locks s"
proof -
  from assms obtain held where
    held: "mutex_lock (str_locks s) (h x mod length (str_locks s)) = Some held"
    by (auto simp: Striped_Remove_def Let_def split: option.splits)
  note un = mutex_lock_unlock [OF held]
  show ?thesis
    using assms held un
    by (auto simp: Striped_Remove_def Let_def split: option.splits)
qed

lemma Striped_Contains_locks:
  assumes "Striped_Contains h s x = Some (b, s')"
  shows "str_locks s' = str_locks s"
proof -
  from assms obtain held where
    held: "mutex_lock (str_locks s) (h x mod length (str_locks s)) = Some held"
    by (auto simp: Striped_Contains_def Let_def split: option.splits)
  note un = mutex_lock_unlock [OF held]
  show ?thesis
    using assms held un
    by (auto simp: Striped_Contains_def Let_def)
qed

lemma Striped_step_locks:
  assumes "Striped_step h s c = Some (r, s')"
  shows "str_locks s' = str_locks s"
  using assms
  by (cases c)
     (auto dest: Striped_Add_locks Striped_Remove_locks Striped_Contains_locks)

lemma Striped_exec_locks:
  assumes "Striped_exec h s cs = Some (rs, s')"
  shows "str_locks s' = str_locks s"
  using assms
proof (induction cs arbitrary: s rs)
  case Nil
  then show ?case by simp
next
  case (Cons c cs)
  from Cons.prems obtain r s1 rs1 where
    st: "Striped_step h s c = Some (r, s1)" and ex: "Striped_exec h s1 cs = Some (rs1, s')"
    by (auto split: option.splits prod.splits)
  show ?case
    using Cons.IH [OF ex] Striped_step_locks [OF st] by simp
qed

lemma Striped_shard_selection:
  "(Striped_Contains h s x = None) = (str_locks s ! (h x mod length (str_locks s)))"
  "(Striped_Remove h s x = None) = (str_locks s ! (h x mod length (str_locks s)))"
  "str_locks s ! (h x mod length (str_locks s)) \<Longrightarrow> Striped_Add h s x = None"
  by (auto simp: Striped_Contains_def Striped_Remove_def Striped_Add_def Let_def mutex_lock_def
      split: option.splits)

lemma table_step_length:
  assumes "table_step h f (tbl, n) c = (r, (tbl', n'))"
  shows "length tbl' = length tbl \<or> length tbl' = length tbl * f"
  using assms
  by (cases c) (auto simp: length_table_add length_table_remove split: if_splits)

lemma table_exec_length:
  assumes "table_exec h f (tbl, n) cs = (rs, (tbl', n'))"
  shows "\<exists>k. length tbl' = length tbl * f ^ k"
  using assms
proof (induction cs arbitrary: tbl n rs)
  case Nil
  then have "length tbl' = length tbl * f ^ 0" by simp
  then show ?case by blast
next
  case (Cons c cs)
  obtain r t1 n1 where st: "table_step h f (tbl, n) c = (r, (t1, n1))"
    by (metis prod.exhaust)
  obtain rs1 where ex: "table_exec h f (t1, n1) cs = (rs1, (tbl', n'))"
    using Cons.prems st by (auto split: prod.splits)
  from Cons.IH [OF ex] obtain k where k: "length tbl' = length t1 * f ^ k"
    by blast
  from table_step_length [OF st] show ?case
  proof
    assume "length t1 = length tbl"
    with k show ?thesis by auto
  next
    assume "length t1 = length tbl * f"
    with k have "length tbl' = length tbl * f ^ Suc k"
      by simp
    then show ?thesis by blast
  qed
qed

subsection \<open>The harness\<close>

lemma Contains_Remove_size:
  "Seq_Contains h s x \<Longrightarrow> Seq_Size (snd (Seq_Remove h s x)) = Seq_Size s - 1"
  by (simp add: Seq_Contains_def Seq_Remove_def Seq_Size_def Let_def erase_first_eq)

lemma after_removes_0: "after_removes h cap n 0 = after_adds h cap n"
  by (simp add: after_removes_def)

lemma after_adds_Suc:
  "after_adds h cap (Suc i) = snd (Seq_Add h (after_adds h cap i) (static_cast_int i))"
  by (simp add: after_adds_def)

lemma after_adds_inv:
  "0 < cap \<Longrightarrow> Seq_inv h (after_adds h cap i)"
proof (induction i)
  case 0
  then show ?case
    by (simp add: after_adds_def Seq_inv_def table_inv_replicate)
next
  case (Suc i)
  then have "Seq_inv h (after_adds h cap i)" by simp
  from Seq_step_inv [OF this, of "Add (static_cast_int i)"] show ?case
    by (simp add: after_adds_Suc split_beta)
qed

lemma add_loop_from:
  assumes "k \<le> n"
  shows "add_loop m h [k..<n] (after_adds h cap k) =
    (if \<forall>i. k \<le> i \<and> i < n \<longrightarrow>
          \<not> Add_throws m h i (after_adds h cap i) (static_cast_int i)
     then Some (after_adds h cap n) else None)"
  using assms
proof (induction "n - k" arbitrary: k)
  case 0
  then show ?case by auto
next
  case (Suc d)
  then have lt: "k < n" and d: "d = n - Suc k" and le: "Suc k \<le> n"
    by simp_all
  show ?case
  proof (cases "Add_throws m h k (after_adds h cap k) (static_cast_int k)")
    case True
    then show ?thesis
      using lt by (auto simp: upt_conv_Cons)
  next
    case False
    have eq: "(\<forall>i. k \<le> i \<and> i < n \<longrightarrow>
          \<not> Add_throws m h i (after_adds h cap i) (static_cast_int i))
       = (\<forall>i. Suc k \<le> i \<and> i < n \<longrightarrow>
          \<not> Add_throws m h i (after_adds h cap i) (static_cast_int i))"
      using False by (metis Suc_leI le_neq_implies_less Suc_leD)
    show ?thesis
      using lt False Suc.hyps(1) [OF d le]
      by (simp add: upt_conv_Cons after_adds_Suc eq)
  qed
qed

lemma add_loop_complete:
  "add_loop m h [0..<n] \<lparr>seq_table = replicate cap [], seq_size = 0\<rparr> =
     (if adds_complete m h cap n then Some (after_adds h cap n) else None)"
proof -
  have "after_adds h cap 0 = \<lparr>seq_table = replicate cap [], seq_size = 0\<rparr>"
    by (simp add: after_adds_def)
  then show ?thesis
    using add_loop_from [of 0 n m h cap] by (simp add: adds_complete_def list_all_iff)
qed

lemma table_inv_word_size:
  fixes tbl :: "32 word list list"
  assumes "table_inv h tbl n"
  shows "n \<le> 2 ^ 32"
proof -
  have "n = length (concat tbl)"
    using assms by (rule table_inv_size)
  also have "\<dots> = card (set (concat tbl))"
    using distinct_card [OF table_inv_distinct [OF assms]] by (rule sym)
  also have "\<dots> \<le> card (UNIV :: 32 word set)"
    by (rule card_mono) simp_all
  also have "\<dots> = 2 ^ 32"
    by (simp add: card_word)
  finally show ?thesis .
qed

lemma no_length_error:
  assumes "0 < cap" "2 ^ 31 \<le> max_size m" "\<forall>i. \<not> add_alloc_fails m i"
  shows "adds_complete m h cap n"
proof -
  have "\<not> Add_throws m h i (after_adds h cap i) (static_cast_int i)" for i
  proof -
    let ?s = "after_adds h cap i" and ?x = "static_cast_int i"
    have inv: "Seq_inv h ?s"
      using after_adds_inv [OF assms(1)] .
    have ti: "table_inv h (seq_table ?s) (seq_size ?s)"
      using inv by (simp add: Seq_inv_def)
    show ?thesis
    proof (cases "?x \<in> members (seq_table ?s)")
      case True
      then have "?x \<in> set (seq_table ?s ! (h ?x mod length (seq_table ?s)))"
        using members_bucket [OF ti] by simp
      then show ?thesis
        by (simp add: Add_throws_def Seq_BucketIndex_def Let_def)
    next
      case False
      have "table_inv h (table_add h 2 (seq_table ?s) (seq_size ?s) ?x) (seq_size ?s + 1)"
        using table_add_inv [OF ti False] by simp
      then have "seq_size ?s + 1 \<le> 2 ^ 32"
        by (rule table_inv_word_size)
      then have "\<not> (seq_size ?s + 1 > 4 * length (seq_table ?s) \<and>
               length (seq_table ?s) * 2 > max_size m)"
        using assms(2) by simp
      then show ?thesis
        using assms(3) by (simp add: Add_throws_def Let_def kLoadFactorThreshold_def)
    qed
  qed
  then show ?thesis
    by (simp add: adds_complete_def list_all_iff)
qed

lemma after_removes_Suc:
  "after_removes h cap n (Suc i) =
     snd (Seq_Remove h (after_removes h cap n i) (static_cast_int i))"
  by (simp add: after_removes_def)

lemma remove_loop_ok:
  assumes "i \<le> n"
    "\<forall>j. i \<le> j \<and> j < n \<longrightarrow> Seq_Contains h (after_removes h cap n j) (static_cast_int j)"
    "\<forall>j. i \<le> j \<and> j < n \<longrightarrow> Seq_Size (after_removes h cap n j) = n - j"
  shows "remove_loop h n [i..<n] err (after_removes h cap n i) = Inr (err, after_removes h cap n n)"
  using assms
proof (induction "n - i" arbitrary: i)
  case 0
  then show ?case by simp
next
  case (Suc k)
  then have lt: "i < n" and k: "k = n - Suc i" and le: "Suc i \<le> n"
    by simp_all
  have c: "Seq_Contains h (after_removes h cap n i) (static_cast_int i)"
    and sz: "Seq_Size (after_removes h cap n i) = n - i"
    using Suc.prems lt by simp_all
  have IH: "remove_loop h n [Suc i..<n] err (after_removes h cap n (Suc i))
      = Inr (err, after_removes h cap n n)"
    using Suc.hyps(1) [OF k le] Suc.prems(2,3) by simp
  show ?case
    using lt c sz IH by (simp add: upt_conv_Cons Let_def after_removes_Suc)
qed

lemma remove_loop_fail:
  assumes "i \<le> n"
    "\<not> (\<forall>j. i \<le> j \<and> j < n \<longrightarrow> Seq_Contains h (after_removes h cap n j) (static_cast_int j))"
  shows "\<exists>err'. remove_loop h n [i..<n] err (after_removes h cap n i) = Inl (err', Exit 1) \<and>
           err' \<noteq> []"
  using assms
proof (induction "n - i" arbitrary: i err)
  case 0
  then show ?case by auto
next
  case (Suc k)
  then have lt: "i < n" and k: "k = n - Suc i" and le: "Suc i \<le> n"
    by simp_all
  show ?case
  proof (cases "Seq_Contains h (after_removes h cap n i) (static_cast_int i)")
    case False
    then show ?thesis
      using lt by (simp add: upt_conv_Cons Let_def)
  next
    case True
    have rest: "\<not> (\<forall>j. Suc i \<le> j \<and> j < n \<longrightarrow>
        Seq_Contains h (after_removes h cap n j) (static_cast_int j))"
    proof
      assume a: "\<forall>j. Suc i \<le> j \<and> j < n \<longrightarrow>
        Seq_Contains h (after_removes h cap n j) (static_cast_int j)"
      have "\<forall>j. i \<le> j \<and> j < n \<longrightarrow> Seq_Contains h (after_removes h cap n j) (static_cast_int j)"
      proof (intro allI impI)
        fix j assume "i \<le> j \<and> j < n"
        then show "Seq_Contains h (after_removes h cap n j) (static_cast_int j)"
          using a True by (cases "j = i") auto
      qed
      with Suc.prems(2) show False by blast
    qed
    show ?thesis
      using lt True Suc.hyps(1) [OF k le rest]
      by (simp add: upt_conv_Cons Let_def after_removes_Suc)
  qed
qed

lemma sizes_follow:
  assumes "Seq_Size (after_adds h cap n) = n"
    "\<forall>j < n. Seq_Contains h (after_removes h cap n j) (static_cast_int j)"
    "i \<le> n"
  shows "Seq_Size (after_removes h cap n i) = n - i"
  using assms(3)
proof (induction i)
  case 0
  then show ?case using assms(1) by (simp add: after_removes_0)
next
  case (Suc i)
  then have "Seq_Size (after_removes h cap n i) = n - i" "i < n"
    by simp_all
  then show ?case
    using assms(2) by (simp add: after_removes_Suc Contains_Remove_size)
qed

lemma checks_pass_iff:
  "checks_pass h cap n \<longleftrightarrow>
     Seq_Size (after_adds h cap n) = n \<and>
     (\<forall>j < n. Seq_Contains h (after_removes h cap n j) (static_cast_int j))"
proof
  assume "checks_pass h cap n"
  then show "Seq_Size (after_adds h cap n) = n \<and>
     (\<forall>j < n. Seq_Contains h (after_removes h cap n j) (static_cast_int j))"
    by (simp add: checks_pass_def list_all_iff)
next
  assume a: "Seq_Size (after_adds h cap n) = n \<and>
     (\<forall>j < n. Seq_Contains h (after_removes h cap n j) (static_cast_int j))"
  then have "\<And>i. i \<le> n \<Longrightarrow> Seq_Size (after_removes h cap n i) = n - i"
    using sizes_follow by blast
  then show "checks_pass h cap n"
    using a by (simp add: checks_pass_def list_all_iff)
qed

lemma main_positive:
  assumes "reaches_checks m h cap n"
  shows "main m h [cap, n] =
    (if Seq_Size (after_adds h cap n) \<noteq> n
     then ([Expected_size n (Seq_Size (after_adds h cap n))], [], Exit 1)
     else
       (case remove_loop h n [0..<n] [] (after_removes h cap n 0) of
          Inl (err, code) \<Rightarrow> (err, [], code)
        | Inr (err, s2) \<Rightarrow>
            if Seq_Size s2 \<noteq> 0
            then (err @ [Expected_empty (Seq_Size s2)], [], Exit 1)
            else (err, [''Sequential hash set tests succeeded''], Exit 0)))"
  using assms
  by (simp add: main_def stoul_def Seq_new_def reaches_checks_def add_loop_complete
      after_removes_0)

lemma main_aborts:
  assumes "\<not> reaches_checks m h cap n"
  shows "snd (snd (main m h [cap, n])) = Aborted \<and> fst (main m h [cap, n]) \<noteq> []"
  using assms
  by (auto simp: main_def stoul_def Seq_new_def reaches_checks_def add_loop_complete)

lemma main_outcome:
  assumes "reaches_checks m h cap n"
  shows "main m h [cap, n] =
    (if checks_pass h cap n then ([], [''Sequential hash set tests succeeded''], Exit 0)
     else (fst (main m h [cap, n]), [], Exit 1)) \<and>
    (\<not> checks_pass h cap n \<longrightarrow> fst (main m h [cap, n]) \<noteq> [])"
proof (cases "Seq_Size (after_adds h cap n) = n")
  case False
  then show ?thesis
    using main_positive [OF assms] by (simp add: checks_pass_iff)
next
  case sz: True
  show ?thesis
  proof (cases "\<forall>j < n. Seq_Contains h (after_removes h cap n j) (static_cast_int j)")
    case True
    then have cp: "checks_pass h cap n"
      using sz by (simp add: checks_pass_iff)
    have sizes: "\<forall>j. 0 \<le> j \<and> j < n \<longrightarrow> Seq_Size (after_removes h cap n j) = n - j"
      using sizes_follow [OF sz True] by simp
    have "remove_loop h n [0..<n] [] (after_removes h cap n 0) = Inr ([], after_removes h cap n n)"
      using remove_loop_ok [of 0 n h cap "[]"] True sizes by simp
    moreover have "Seq_Size (after_removes h cap n n) = 0"
      using sizes_follow [OF sz True, of n] by simp
    ultimately show ?thesis
      using main_positive [OF assms] sz cp by simp
  next
    case False
    then have cp: "\<not> checks_pass h cap n"
      by (simp add: checks_pass_iff)
    from False have "\<not> (\<forall>j. 0 \<le> j \<and> j < n \<longrightarrow>
        Seq_Contains h (after_removes h cap n j) (static_cast_int j))"
      by simp
    from remove_loop_fail [OF _ this, of "[]"] obtain err' where
      "remove_loop h n [0..<n] [] (after_removes h cap n 0) = Inl (err', Exit 1)" "err' \<noteq> []"
      by auto
    then show ?thesis
      using main_positive [OF assms] sz cp by simp
  qed
qed

section \<open>The claims\<close>

text \<open>
  C1. For every single-threaded sequence of \<open>Add\<close>, \<open>Remove\<close>, \<open>Contains\<close> and
  \<open>Size\<close> operations, the striped and the refinable set, started with the same
  positive initial capacity as the sequential set, return the same sequence of values
  and end with the same members, although the sequential and the striped set double
  their table and the refinable set quadruples it.
\<close>

theorem variants_agree:
  assumes "0 < initial_capacity"
  shows "\<exists>rets s1 s2 s3.
     Seq_run hash initial_capacity cs = Some (rets, s1) \<and>
     Striped_run hash initial_capacity cs = Some (rets, s2) \<and>
     Refinable_run hash initial_capacity cs = Some (rets, s3) \<and>
     members (str_table s2) = members (seq_table s1) \<and>
     members (buckets (current s3)) = members (seq_table s1)"
proof -
  from Seq_run_table [OF assms, of hash cs] obtain s1 where
    s1: "Seq_run hash initial_capacity cs
           = Some (fst (table_exec hash 2 (replicate initial_capacity [], 0) cs), s1)"
      "Seq_view s1 = snd (table_exec hash 2 (replicate initial_capacity [], 0) cs)"
    by blast
  from Striped_run_table [OF assms, of hash cs] obtain s2 where
    s2: "Striped_run hash initial_capacity cs
           = Some (fst (table_exec hash 2 (replicate initial_capacity [], 0) cs), s2)"
      "Striped_view s2 = snd (table_exec hash 2 (replicate initial_capacity [], 0) cs)"
    by blast
  from Refinable_run_table [OF assms, of hash cs] obtain s3 where
    s3: "Refinable_run hash initial_capacity cs
           = Some (fst (table_exec hash 4 (replicate initial_capacity [], 0) cs), s3)"
      "Refinable_view s3 = snd (table_exec hash 4 (replicate initial_capacity [], 0) cs)"
    by blast
  note f = table_exec_factors [OF assms, of hash cs]
  have m2: "members (str_table s2) = members (seq_table s1)"
    using s1(2) s2(2) by (simp add: Seq_view_def Striped_view_def prod_eq_iff)
  have m3: "members (buckets (current s3)) = members (seq_table s1)"
    using s1(2) s3(2) f by (simp add: Seq_view_def Refinable_view_def prod_eq_iff)
  show ?thesis
    using s1(1) s2(1) s3(1) f m2 m3 by simp
qed

theorem variants_agree_witness:
  "map_option fst (Striped_run (\<lambda>x. x) 1
      [Add 0, Add 1, Add 2, Add 3, Add 4, Add 2, Contains 2, Remove (1::nat), Remove 7,
       Contains 1, Size])
     = Some [Flag True, Flag True, Flag True, Flag True, Flag True, Flag False, Flag True,
             Flag True, Flag False, Flag False, Count 4] \<and>
   map_option fst (Refinable_run (\<lambda>x. x) 1
      [Add 0, Add 1, Add 2, Add 3, Add 4, Add 2, Contains 2, Remove (1::nat), Remove 7,
       Contains 1, Size])
     = Some [Flag True, Flag True, Flag True, Flag True, Flag True, Flag False, Flag True,
             Flag True, Flag False, Flag False, Count 4]"
proof -
  let ?cs = "[Add 0, Add 1, Add 2, Add 3, Add 4, Add 2, Contains 2, Remove (1::nat), Remove 7,
       Contains 1, Size]"
  have seq: "map_option fst (Seq_run (\<lambda>x. x) 1 ?cs)
     = Some [Flag True, Flag True, Flag True, Flag True, Flag True, Flag False, Flag True,
             Flag True, Flag False, Flag False, Count 4]"
    by code_simp
  have pos: "(0::nat) < 1" by simp
  from variants_agree [OF pos, of "\<lambda>x. x" ?cs] seq show ?thesis
    by auto
qed

text \<open>
  C2. In each variant, for every state that satisfies the invariants and every element
  \<open>x\<close>: \<open>Add x\<close> returns true exactly when no equal element is present; it then
  adds the one entry \<open>x\<close> and the size grows by one; when \<open>x\<close> is present it
  returns false and leaves the state as it is. In both cases \<open>x\<close> is a member
  afterwards, and a second \<open>Add x\<close> returns false and changes nothing, the size
  included.
\<close>

theorem Add_inserts_iff_absent:
  "(Seq_inv hash s \<longrightarrow>
      (\<exists>s'. Seq_Add hash s x = (x \<notin> members (seq_table s), s') \<and>
         (if x \<in> members (seq_table s) then s' = s
          else mset (concat (seq_table s')) = add_mset x (mset (concat (seq_table s))) \<and>
               Seq_Size s' = Seq_Size s + 1) \<and>
         Seq_Contains hash s' x \<and> Seq_Add hash s' x = (False, s'))) \<and>
   (Striped_inv hash t \<longrightarrow>
      (\<exists>t'. Striped_Add hash t x = Some (x \<notin> members (str_table t), t') \<and>
         (if x \<in> members (str_table t) then t' = t
          else mset (concat (str_table t')) = add_mset x (mset (concat (str_table t))) \<and>
               Striped_Size t' = Striped_Size t + 1) \<and>
         Striped_Contains hash t' x = Some (True, t') \<and>
         Striped_Add hash t' x = Some (False, t'))) \<and>
   (Refinable_inv hash r \<longrightarrow>
      (\<exists>r'. Refinable_Add hash r x = Some (x \<notin> members (buckets (current r)), r') \<and>
         (if x \<in> members (buckets (current r)) then r' = r
          else mset (concat (buckets (current r')))
                 = add_mset x (mset (concat (buckets (current r)))) \<and>
               Refinable_Size r' = Refinable_Size r + 1) \<and>
         Refinable_Contains hash r' x = Some (True, r') \<and>
         Refinable_Add hash r' x = Some (False, r')))"
  using Seq_Add_contract [of hash s x] Striped_Add_contract [of hash t x]
    Refinable_Add_contract [of hash r x]
  by blast

theorem Add_inserts_iff_absent_witness:
  "Seq_Add (\<lambda>x. x) \<lparr>seq_table = [[0, 2], [1::nat]], seq_size = 3\<rparr> 5
     = (True, \<lparr>seq_table = [[0, 2], [1, 5]], seq_size = 4\<rparr>) \<and>
   Seq_Add (\<lambda>x. x) \<lparr>seq_table = [[0, 2], [1, 5::nat]], seq_size = 4\<rparr> 5
     = (False, \<lparr>seq_table = [[0, 2], [1, 5]], seq_size = 4\<rparr>) \<and>
   Striped_Add (\<lambda>x. x)
     \<lparr>str_table = [[0, 2], [1, 5::nat]], str_locks = [False], str_resize_mutex = False,
      str_size = 4\<rparr> 5
     = Some (False, \<lparr>str_table = [[0, 2], [1, 5]], str_locks = [False],
                     str_resize_mutex = False, str_size = 4\<rparr>) \<and>
   Refinable_Add (\<lambda>x. x)
     \<lparr>ref_heap = [\<lparr>buckets = [[0, 2], [1, 5::nat]], locks = [False, False]\<rparr>], ref_state = 0,
      ref_resize_mutex = False, ref_size = 4\<rparr> 5
     = Some (False, \<lparr>ref_heap = [\<lparr>buckets = [[0, 2], [1, 5]], locks = [False, False]\<rparr>],
                     ref_state = 0, ref_resize_mutex = False, ref_size = 4\<rparr>)"
proof -
  let ?s = "\<lparr>seq_table = [[0, 2], [1::nat]], seq_size = 3\<rparr>"
  let ?t = "\<lparr>str_table = [[0, 2], [1, 5::nat]], str_locks = [False], str_resize_mutex = False,
      str_size = 4\<rparr>"
  let ?r = "\<lparr>ref_heap = [\<lparr>buckets = [[0, 2], [1, 5::nat]], locks = [False, False]\<rparr>], ref_state = 0,
      ref_resize_mutex = False, ref_size = 4\<rparr>"
  have i: "Seq_inv (\<lambda>x. x) ?s" "Striped_inv (\<lambda>x. x) ?t" "Refinable_inv (\<lambda>x. x) ?r"
    by code_simp+
  have m: "5 \<notin> members (seq_table ?s)" "5 \<in> members (str_table ?t)"
    "5 \<in> members (buckets (current ?r))"
    by code_simp+
  have a: "Seq_Add (\<lambda>x. x) ?s 5 = (True, \<lparr>seq_table = [[0, 2], [1, 5]], seq_size = 4\<rparr>)"
    by code_simp
  from Add_inserts_iff_absent [of "\<lambda>x. x" ?s 5 ?t ?r] i m a show ?thesis
    by auto
qed

text \<open>
  C3. In each variant, for every state that satisfies the invariants and every element
  \<open>x\<close>: \<open>Remove x\<close> returns true exactly when an equal element is present; it then
  deletes exactly one occurrence of \<open>x\<close> and the size decreases by one; when \<open>x\<close> is
  absent it returns false and leaves the whole state, the size included, as it is.
\<close>

theorem Remove_deletes_iff_present:
  "(Seq_inv hash s \<longrightarrow>
      (\<exists>s'. Seq_Remove hash s x = (x \<in> members (seq_table s), s') \<and>
         (if x \<in> members (seq_table s)
          then mset (concat (seq_table s')) = mset (concat (seq_table s)) - {#x#} \<and>
               Seq_Size s' + 1 = Seq_Size s
          else s' = s))) \<and>
   (Striped_inv hash t \<longrightarrow>
      (\<exists>t'. Striped_Remove hash t x = Some (x \<in> members (str_table t), t') \<and>
         (if x \<in> members (str_table t)
          then mset (concat (str_table t')) = mset (concat (str_table t)) - {#x#} \<and>
               Striped_Size t' + 1 = Striped_Size t
          else t' = t))) \<and>
   (Refinable_inv hash r \<longrightarrow>
      (\<exists>r'. Refinable_Remove hash r x = Some (x \<in> members (buckets (current r)), r') \<and>
         (if x \<in> members (buckets (current r))
          then mset (concat (buckets (current r')))
                 = mset (concat (buckets (current r))) - {#x#} \<and>
               Refinable_Size r' + 1 = Refinable_Size r
          else r' = r)))"
  using Seq_Remove_contract [of hash s x] Striped_Remove_contract [of hash t x]
    Refinable_Remove_contract [of hash r x]
  by blast

theorem Remove_deletes_iff_present_witness:
  "Seq_Remove (\<lambda>x. x) \<lparr>seq_table = [[0, 2], [1, 5::nat]], seq_size = 4\<rparr> 7
     = (False, \<lparr>seq_table = [[0, 2], [1, 5]], seq_size = 4\<rparr>) \<and>
   Striped_Remove (\<lambda>x. x)
     \<lparr>str_table = [[0, 2], [1, 5::nat]], str_locks = [False], str_resize_mutex = False,
      str_size = 4\<rparr> 7
     = Some (False, \<lparr>str_table = [[0, 2], [1, 5]], str_locks = [False],
                     str_resize_mutex = False, str_size = 4\<rparr>) \<and>
   Refinable_Remove (\<lambda>x. x)
     \<lparr>ref_heap = [\<lparr>buckets = [[0, 2], [1, 5::nat]], locks = [False, False]\<rparr>], ref_state = 0,
      ref_resize_mutex = False, ref_size = 4\<rparr> 7
     = Some (False, \<lparr>ref_heap = [\<lparr>buckets = [[0, 2], [1, 5]], locks = [False, False]\<rparr>],
                     ref_state = 0, ref_resize_mutex = False, ref_size = 4\<rparr>) \<and>
   (\<exists>s'. Seq_Remove (\<lambda>x. x) \<lparr>seq_table = [[0, 2], [1, 5::nat]], seq_size = 4\<rparr> 2 = (True, s') \<and>
      mset (concat (seq_table s')) = {#0, 1, 5#} \<and> Seq_Size s' = 3)"
proof -
  let ?s = "\<lparr>seq_table = [[0, 2], [1, 5::nat]], seq_size = 4\<rparr>"
  let ?t = "\<lparr>str_table = [[0, 2], [1, 5::nat]], str_locks = [False], str_resize_mutex = False,
      str_size = 4\<rparr>"
  let ?r = "\<lparr>ref_heap = [\<lparr>buckets = [[0, 2], [1, 5::nat]], locks = [False, False]\<rparr>], ref_state = 0,
      ref_resize_mutex = False, ref_size = 4\<rparr>"
  have i: "Seq_inv (\<lambda>x. x) ?s" "Striped_inv (\<lambda>x. x) ?t" "Refinable_inv (\<lambda>x. x) ?r"
    by code_simp+
  have m: "7 \<notin> members (seq_table ?s)" "7 \<notin> members (str_table ?t)"
    "7 \<notin> members (buckets (current ?r))"
    by code_simp+
  from Remove_deletes_iff_present [of "\<lambda>x. x" ?s 7 ?t ?r] i m
  have absent: "Seq_Remove (\<lambda>x. x) ?s 7 = (False, ?s)"
    "Striped_Remove (\<lambda>x. x) ?t 7 = Some (False, ?t)"
    "Refinable_Remove (\<lambda>x. x) ?r 7 = Some (False, ?r)"
    by auto
  have m2: "2 \<in> members (seq_table ?s)"
    by code_simp
  from Remove_deletes_iff_present [of "\<lambda>x. x" ?s 2 ?t ?r] i(1) m2
  obtain s' where "Seq_Remove (\<lambda>x. x) ?s 2 = (True, s')"
    "mset (concat (seq_table s')) = mset (concat (seq_table ?s)) - {#2#}"
    "Seq_Size s' + 1 = Seq_Size ?s"
    by auto
  then have present: "\<exists>s'. Seq_Remove (\<lambda>x. x) ?s 2 = (True, s') \<and>
       mset (concat (seq_table s')) = {#0, 1, 5#} \<and> Seq_Size s' = 3"
    by (auto simp: Seq_Size_def)
  show ?thesis
    using absent present by simp
qed

text \<open>
  C4. Every resize keeps exactly the stored elements: in each variant, on a state that
  satisfies the invariants, the entries after the resize are the entries before it
  (none lost, none twice), the size is unchanged, the invariants still hold, and the
  table has grown by the variant's factor when it grew at all. Hence, for every
  positive initial capacity, adding the elements of a list without repetitions, each
  \<open>Add\<close> returns true, \<open>Size\<close> is then the length of the list and the members are
  its elements: 1000 after the integers from 0 to 999 into a set of capacity 4.
\<close>

theorem resize_preserves_elements:
  "(Seq_inv hash s \<longrightarrow>
      mset (concat (seq_table (Seq_Resize hash s))) = mset (concat (seq_table s)) \<and>
      Seq_Size (Seq_Resize hash s) = Seq_Size s \<and>
      Seq_inv hash (Seq_Resize hash s) \<and>
      length (seq_table (Seq_Resize hash s)) = 2 * length (seq_table s)) \<and>
   (Striped_inv hash t \<longrightarrow>
      (\<exists>t'. Striped_Resize hash t = Some t' \<and>
         mset (concat (str_table t')) = mset (concat (str_table t)) \<and>
         Striped_Size t' = Striped_Size t \<and>
         Striped_inv hash t' \<and>
         length (str_table t') =
           (if Striped_Size t > 4 * length (str_table t) then 2 * length (str_table t)
            else length (str_table t)))) \<and>
   (Refinable_inv hash r \<longrightarrow>
      (\<exists>r'. MaybeResize hash r (ref_state r) = Some r' \<and>
         mset (concat (buckets (current r'))) = mset (concat (buckets (current r))) \<and>
         Refinable_Size r' = Refinable_Size r \<and>
         Refinable_inv hash r' \<and>
         length (buckets (current r')) =
           (if Refinable_Size r > 4 * length (buckets (current r))
            then 4 * length (buckets (current r))
            else length (buckets (current r))))) \<and>
   (0 < initial_capacity \<and> distinct xs \<longrightarrow>
      (\<exists>s'. Seq_run hash initial_capacity (map Add xs @ [Size])
               = Some (replicate (length xs) (Flag True) @ [Count (length xs)], s') \<and>
            members (seq_table s') = set xs) \<and>
      (\<exists>t'. Striped_run hash initial_capacity (map Add xs @ [Size])
               = Some (replicate (length xs) (Flag True) @ [Count (length xs)], t') \<and>
            members (str_table t') = set xs) \<and>
      (\<exists>r'. Refinable_run hash initial_capacity (map Add xs @ [Size])
               = Some (replicate (length xs) (Flag True) @ [Count (length xs)], r') \<and>
            members (buckets (current r')) = set xs))"
proof -
  have runs: "(\<exists>s'. Seq_run hash initial_capacity (map Add xs @ [Size])
               = Some (replicate (length xs) (Flag True) @ [Count (length xs)], s') \<and>
            members (seq_table s') = set xs) \<and>
      (\<exists>t'. Striped_run hash initial_capacity (map Add xs @ [Size])
               = Some (replicate (length xs) (Flag True) @ [Count (length xs)], t') \<and>
            members (str_table t') = set xs) \<and>
      (\<exists>r'. Refinable_run hash initial_capacity (map Add xs @ [Size])
               = Some (replicate (length xs) (Flag True) @ [Count (length xs)], r') \<and>
            members (buckets (current r')) = set xs)"
    if pos: "0 < initial_capacity" and d: "distinct xs"
  proof -
    let ?cs = "map Add xs @ [Size]"
    from table_exec_adds_size [OF pos _ d, of 2 hash] obtain t2 where
      e2: "table_exec hash 2 (replicate initial_capacity [], 0) ?cs
            = (replicate (length xs) (Flag True) @ [Count (length xs)], (t2, length xs))"
      and m2: "members t2 = set xs"
      by auto
    from table_exec_adds_size [OF pos _ d, of 4 hash] obtain t4 where
      e4: "table_exec hash 4 (replicate initial_capacity [], 0) ?cs
            = (replicate (length xs) (Flag True) @ [Count (length xs)], (t4, length xs))"
      and m4: "members t4 = set xs"
      by auto
    from Seq_run_table [OF pos, of hash ?cs] e2 m2 have "\<exists>s'. Seq_run hash initial_capacity ?cs
               = Some (replicate (length xs) (Flag True) @ [Count (length xs)], s') \<and>
            members (seq_table s') = set xs"
      by (auto simp: Seq_view_def)
    moreover from Striped_run_table [OF pos, of hash ?cs] e2 m2
    have "\<exists>t'. Striped_run hash initial_capacity ?cs
               = Some (replicate (length xs) (Flag True) @ [Count (length xs)], t') \<and>
            members (str_table t') = set xs"
      by (auto simp: Striped_view_def)
    moreover from Refinable_run_table [OF pos, of hash ?cs] e4 m4
    have "\<exists>r'. Refinable_run hash initial_capacity ?cs
               = Some (replicate (length xs) (Flag True) @ [Count (length xs)], r') \<and>
            members (buckets (current r')) = set xs"
      by (auto simp: Refinable_view_def)
    ultimately show ?thesis by blast
  qed
  show ?thesis
    using Seq_Resize_preserves [of hash s] Striped_Resize_preserves [of hash t]
      MaybeResize_preserves [of hash r] runs
    by blast
qed

theorem resize_preserves_elements_witness:
  "mset (concat (seq_table (Seq_Resize (\<lambda>x. x) \<lparr>seq_table = [[0, 1, 2, 3, 4::nat]], seq_size = 5\<rparr>)))
     = {#0, 1, 2, 3, 4#} \<and>
   length (seq_table (Seq_Resize (\<lambda>x. x) \<lparr>seq_table = [[0, 1, 2, 3, 4::nat]], seq_size = 5\<rparr>)) = 2 \<and>
   (\<exists>t'. Striped_Resize (\<lambda>x. x)
            \<lparr>str_table = [[0, 1, 2, 3, 4::nat]], str_locks = [False], str_resize_mutex = False,
             str_size = 5\<rparr> = Some t' \<and>
      mset (concat (str_table t')) = {#0, 1, 2, 3, 4#} \<and> Striped_Size t' = 5 \<and>
      length (str_table t') = 2) \<and>
   (\<exists>r'. MaybeResize (\<lambda>x. x)
            \<lparr>ref_heap = [\<lparr>buckets = [[0, 1, 2, 3, 4::nat]], locks = [False]\<rparr>], ref_state = 0,
             ref_resize_mutex = False, ref_size = 5\<rparr> 0 = Some r' \<and>
      mset (concat (buckets (current r'))) = {#0, 1, 2, 3, 4#} \<and> Refinable_Size r' = 5 \<and>
      length (buckets (current r')) = 4) \<and>
   (\<exists>s'. Seq_run (\<lambda>x. x) 4 (map Add [0..<1000] @ [Size])
            = Some (replicate 1000 (Flag True) @ [Count 1000], s') \<and>
          members (seq_table s') = {0..<1000}) \<and>
   (\<exists>t'. Striped_run (\<lambda>x. x) 4 (map Add [0..<1000] @ [Size])
            = Some (replicate 1000 (Flag True) @ [Count 1000], t') \<and>
          members (str_table t') = {0..<1000}) \<and>
   (\<exists>r'. Refinable_run (\<lambda>x. x) 4 (map Add [0..<1000] @ [Size])
            = Some (replicate 1000 (Flag True) @ [Count 1000], r') \<and>
          members (buckets (current r')) = {0..<1000})"
proof -
  let ?s = "\<lparr>seq_table = [[0, 1, 2, 3, 4::nat]], seq_size = 5\<rparr>"
  let ?t = "\<lparr>str_table = [[0, 1, 2, 3, 4::nat]], str_locks = [False], str_resize_mutex = False,
             str_size = 5\<rparr>"
  let ?r = "\<lparr>ref_heap = [\<lparr>buckets = [[0, 1, 2, 3, 4::nat]], locks = [False]\<rparr>], ref_state = 0,
             ref_resize_mutex = False, ref_size = 5\<rparr>"
  have i: "Seq_inv (\<lambda>x. x) ?s" "Striped_inv (\<lambda>x. x) ?t" "Refinable_inv (\<lambda>x. x) ?r"
    by code_simp+
  have h: "(0::nat) < 4 \<and> distinct [0..<1000]"
    by simp
  note th = resize_preserves_elements [of "\<lambda>x. x" ?s ?t ?r 4 "[0..<1000]"]
  have a: "mset (concat (seq_table (Seq_Resize (\<lambda>x. x) ?s))) = {#0, 1, 2, 3, 4#}"
    "length (seq_table (Seq_Resize (\<lambda>x. x) ?s)) = 2"
    using th i(1) by simp_all
  have b: "\<exists>t'. Striped_Resize (\<lambda>x. x) ?t = Some t' \<and>
      mset (concat (str_table t')) = {#0, 1, 2, 3, 4#} \<and> Striped_Size t' = 5 \<and>
      length (str_table t') = 2"
    using th i(2) by (auto simp: Striped_Size_def)
  have c: "\<exists>r'. MaybeResize (\<lambda>x. x) ?r 0 = Some r' \<and>
      mset (concat (buckets (current r'))) = {#0, 1, 2, 3, 4#} \<and> Refinable_Size r' = 5 \<and>
      length (buckets (current r')) = 4"
    using th i(3) by (auto simp: Refinable_Size_def current_def)
  have d: "(\<exists>s'. Seq_run (\<lambda>x. x) 4 (map Add [0..<1000] @ [Size])
            = Some (replicate 1000 (Flag True) @ [Count 1000], s') \<and>
          members (seq_table s') = {0..<1000}) \<and>
   (\<exists>t'. Striped_run (\<lambda>x. x) 4 (map Add [0..<1000] @ [Size])
            = Some (replicate 1000 (Flag True) @ [Count 1000], t') \<and>
          members (str_table t') = {0..<1000}) \<and>
   (\<exists>r'. Refinable_run (\<lambda>x. x) 4 (map Add [0..<1000] @ [Size])
            = Some (replicate 1000 (Flag True) @ [Count 1000], r') \<and>
          members (buckets (current r')) = {0..<1000})"
    using th h by simp
  show ?thesis
    using a b c d by blast
qed

text \<open>
  C5. In every variant, every state reached from the constructor with a positive
  capacity by a single-threaded sequence of operations satisfies the four data-model
  invariants together: the capacity is not zero, every stored element sits in the
  bucket of its hash modulo the capacity, no bucket holds an element twice, and the
  size counter is the number of entries.
\<close>

theorem reachable_states_satisfy_invariants:
  assumes "0 < initial_capacity"
  shows "(\<exists>rets s. Seq_run hash initial_capacity cs = Some (rets, s) \<and>
            table_inv hash (seq_table s) (Seq_Size s)) \<and>
         (\<exists>rets s. Striped_run hash initial_capacity cs = Some (rets, s) \<and>
            table_inv hash (str_table s) (Striped_Size s)) \<and>
         (\<exists>rets s. Refinable_run hash initial_capacity cs = Some (rets, s) \<and>
            table_inv hash (buckets (current s)) (Refinable_Size s))"
proof -
  from Seq_run_table [OF assms, of hash cs] have "\<exists>rets s.
      Seq_run hash initial_capacity cs = Some (rets, s) \<and> table_inv hash (seq_table s) (Seq_Size s)"
    by (auto simp: Seq_inv_def Seq_Size_def)
  moreover from Striped_run_table [OF assms, of hash cs] have "\<exists>rets s.
      Striped_run hash initial_capacity cs = Some (rets, s) \<and>
      table_inv hash (str_table s) (Striped_Size s)"
    by (auto simp: Striped_inv_def Striped_Size_def)
  moreover from Refinable_run_table [OF assms, of hash cs] have "\<exists>rets s.
      Refinable_run hash initial_capacity cs = Some (rets, s) \<and>
      table_inv hash (buckets (current s)) (Refinable_Size s)"
    by (auto simp: Refinable_inv_def Refinable_Size_def)
  ultimately show ?thesis by blast
qed

theorem reachable_states_satisfy_invariants_witness:
  "(\<exists>rets s. Seq_run (\<lambda>x. x) 1 [Add 0, Add 1, Add 2, Add 3, Add (4::nat), Remove 2] = Some (rets, s) \<and>
      seq_table s = [[0, 4], [1, 3]] \<and> Seq_Size s = 4 \<and>
      table_inv (\<lambda>x. x) (seq_table s) (Seq_Size s)) \<and>
   (\<exists>rets s. Striped_run (\<lambda>x. x) 1 [Add 0, Add 1, Add 2, Add 3, Add (4::nat), Remove 2] = Some (rets, s) \<and>
      str_table s = [[0, 4], [1, 3]] \<and> Striped_Size s = 4 \<and>
      table_inv (\<lambda>x. x) (str_table s) (Striped_Size s)) \<and>
   (\<exists>rets s. Refinable_run (\<lambda>x. x) 1 [Add 0, Add 1, Add 2, Add 3, Add (4::nat), Remove 2] = Some (rets, s) \<and>
      buckets (current s) = [[0, 4], [1], [], [3]] \<and> Refinable_Size s = 4 \<and>
      table_inv (\<lambda>x. x) (buckets (current s)) (Refinable_Size s))"
proof -
  let ?cs = "[Add 0, Add 1, Add 2, Add 3, Add (4::nat), Remove 2]"
  have pos: "(0::nat) < 1" by simp
  have a: "map_option (\<lambda>(r, s). (seq_table s, Seq_Size s)) (Seq_run (\<lambda>x. x) 1 ?cs)
      = Some ([[0, 4], [1, 3]], 4)"
    by code_simp
  have b: "map_option (\<lambda>(r, s). (str_table s, Striped_Size s)) (Striped_run (\<lambda>x. x) 1 ?cs)
      = Some ([[0, 4], [1, 3]], 4)"
    by code_simp
  have c: "map_option (\<lambda>(r, s). (buckets (current s), Refinable_Size s)) (Refinable_run (\<lambda>x. x) 1 ?cs)
      = Some ([[0, 4], [1], [], [3]], 4)"
    by code_simp
  from reachable_states_satisfy_invariants [OF pos, of "\<lambda>x. x" ?cs] a b c
  show ?thesis by auto
qed

text \<open>
  C6. The harness, given an initial capacity and a count \<open>N\<close>. In the runs that reach
  its checks (both arguments fit \<open>unsigned long\<close>, the capacity is positive and at
  most \<open>max_size()\<close>, and no allocation fails) it performs the \<open>N\<close> insertions,
  checks the size, checks before each removal the size and the membership of the
  value, checks the size at the end, and exits with code 0 exactly when every one of
  these checks passes (then with no diagnostic and the line of success), and with code
  1 and a diagnostic on the error stream when one fails. In every other run it aborts
  with a message on the error stream and has neither exit code: after the failed
  assertion for the capacity 0, after an exception otherwise. On a machine with a
  \<open>max_size()\<close> of at least \<open>2 ^ 31\<close> where no allocation fails, the runs that reach
  the checks are exactly those with arguments below \<open>2 ^ 64\<close> and a capacity from 1
  to \<open>max_size()\<close>: no \<open>Resize\<close> of a set of \<open>int\<close>s builds a table longer than
  \<open>2 ^ 31\<close>.
\<close>

theorem harness_exit_code:
  "(reaches_checks m hash initial_capacity n \<longrightarrow>
      ((snd (snd (main m hash [initial_capacity, n])) = Exit 0)
         \<longleftrightarrow> checks_pass hash initial_capacity n) \<and>
      (checks_pass hash initial_capacity n \<longrightarrow>
         main m hash [initial_capacity, n]
           = ([], [''Sequential hash set tests succeeded''], Exit 0)) \<and>
      (\<not> checks_pass hash initial_capacity n \<longrightarrow>
         snd (snd (main m hash [initial_capacity, n])) = Exit 1 \<and>
         fst (main m hash [initial_capacity, n]) \<noteq> [])) \<and>
   (\<not> reaches_checks m hash initial_capacity n \<longrightarrow>
      snd (snd (main m hash [initial_capacity, n])) = Aborted \<and>
      fst (main m hash [initial_capacity, n]) \<noteq> []) \<and>
   (2 ^ 31 \<le> max_size m \<and> \<not> constructor_alloc_fails m \<and> (\<forall>i. \<not> add_alloc_fails m i) \<longrightarrow>
      reaches_checks m hash initial_capacity n
        = (0 < initial_capacity \<and> initial_capacity \<le> max_size m \<and>
           initial_capacity < 2 ^ 64 \<and> n < 2 ^ 64))"
proof -
  have pos: "((snd (snd (main m hash [initial_capacity, n])) = Exit 0)
         \<longleftrightarrow> checks_pass hash initial_capacity n) \<and>
      (checks_pass hash initial_capacity n \<longrightarrow>
         main m hash [initial_capacity, n]
           = ([], [''Sequential hash set tests succeeded''], Exit 0)) \<and>
      (\<not> checks_pass hash initial_capacity n \<longrightarrow>
         snd (snd (main m hash [initial_capacity, n])) = Exit 1 \<and>
         fst (main m hash [initial_capacity, n]) \<noteq> [])"
    if r: "reaches_checks m hash initial_capacity n"
  proof (cases "checks_pass hash initial_capacity n")
    case True
    then show ?thesis
      using main_outcome [OF r] by simp
  next
    case False
    have "main m hash [initial_capacity, n]
        = (fst (main m hash [initial_capacity, n]), [], Exit 1)"
      "fst (main m hash [initial_capacity, n]) \<noteq> []"
      using main_outcome [OF r] False by simp_all
    then have "snd (snd (main m hash [initial_capacity, n])) = Exit 1"
      by (metis snd_conv)
    then show ?thesis
      using False \<open>fst (main m hash [initial_capacity, n]) \<noteq> []\<close> by simp
  qed
  have std: "reaches_checks m hash initial_capacity n
        = (0 < initial_capacity \<and> initial_capacity \<le> max_size m \<and>
           initial_capacity < 2 ^ 64 \<and> n < 2 ^ 64)"
    if "2 ^ 31 \<le> max_size m" "\<not> constructor_alloc_fails m" "\<forall>i. \<not> add_alloc_fails m i"
    using that no_length_error [of initial_capacity m hash n]
    by (auto simp: reaches_checks_def constructor_throws_def)
  show ?thesis
    using pos std main_aborts [of m hash initial_capacity n] by blast
qed

theorem harness_exit_code_witness:
  "main example_machine unat [4, 5] = ([], [''Sequential hash set tests succeeded''], Exit 0) \<and>
   checks_pass unat 4 5 \<and>
   reaches_checks example_machine unat 4 1000 \<and>
   snd (snd (main example_machine unat [0, 5])) = Aborted \<and>
   snd (snd (main example_machine unat [4611686018427387904, 0])) = Aborted \<and>
   snd (snd (main example_machine unat [4, 18446744073709551616])) = Aborted"
proof -
  have mach: "2 ^ 31 \<le> max_size example_machine \<and> \<not> constructor_alloc_fails example_machine \<and>
      (\<forall>i. \<not> add_alloc_fails example_machine i)"
    by (simp add: example_machine_def)
  have ms: "max_size example_machine = 384307168202282325"
    by (simp add: example_machine_def)
  have r: "reaches_checks example_machine unat 4 5" 
    "reaches_checks example_machine unat 4 1000"
    "\<not> reaches_checks example_machine unat 0 5"
    "\<not> reaches_checks example_machine unat 4611686018427387904 0"
    "\<not> reaches_checks example_machine unat 4 18446744073709551616"
    using harness_exit_code [of example_machine unat 4 5]
      harness_exit_code [of example_machine unat 4 1000]
      harness_exit_code [of example_machine unat 0 5]
      harness_exit_code [of example_machine unat 4611686018427387904 0]
      harness_exit_code [of example_machine unat 4 18446744073709551616]
      mach
    by (simp_all add: ms)
  have cp: "checks_pass unat 4 5"
    by code_simp
  have a: "main example_machine unat [4, 5]
      = ([], [''Sequential hash set tests succeeded''], Exit 0)" "checks_pass unat 4 5"
    using harness_exit_code [of example_machine unat 4 5] r(1) cp by blast+
  have b: "snd (snd (main example_machine unat [0, 5])) = Aborted"
    using harness_exit_code [of example_machine unat 0 5] r(3) by blast
  have c: "snd (snd (main example_machine unat [4611686018427387904, 0])) = Aborted"
    using harness_exit_code [of example_machine unat 4611686018427387904 0] r(4) by blast
  have d: "snd (snd (main example_machine unat [4, 18446744073709551616])) = Aborted"
    using harness_exit_code [of example_machine unat 4 18446744073709551616] r(5) by blast
  show ?thesis
    using a b c d r(2) by simp
qed

text \<open>
  As stated for every pair of arguments, C6 fails: with the capacity 0, with a capacity
  above \<open>max_size()\<close> (here \<open>2 ^ 62\<close>), with an argument that \<open>unsigned long\<close>
  cannot hold (here \<open>2 ^ 64\<close>), and where the first table cannot be allocated, the
  process ends with code 0 no more than with code 1.
\<close>

theorem harness_claim_counterexample:
  "snd (snd (main example_machine unat [0, 5])) \<noteq> Exit 0 \<and>
   snd (snd (main example_machine unat [0, 5])) \<noteq> Exit 1 \<and>
   snd (snd (main example_machine unat [4611686018427387904, 0])) \<noteq> Exit 0 \<and>
   snd (snd (main example_machine unat [4611686018427387904, 0])) \<noteq> Exit 1 \<and>
   snd (snd (main example_machine unat [4, 18446744073709551616])) \<noteq> Exit 0 \<and>
   snd (snd (main example_machine unat [4, 18446744073709551616])) \<noteq> Exit 1 \<and>
   snd (snd (main full_machine unat [4, 5])) \<noteq> Exit 0 \<and>
   snd (snd (main full_machine unat [4, 5])) \<noteq> Exit 1"
  by (simp add: main_def stoul_def constructor_throws_def Seq_new_def example_machine_def
      full_machine_def)

text \<open>
  C7. When \<open>MaybeResize\<close> of the refinable set wins the try-lock on the resize mutex,
  finds \<open>state_\<close> still equal to the snapshot of its caller and the size still above
  four times the capacity, and no bucket lock of that snapshot is held, it returns
  with \<open>state_\<close> set to the handle of a new snapshot: of exactly four times the old
  capacity, with one free lock per bucket, whose bucket \<open>i\<close> holds, in their old order,
  the stored elements with hash modulo the new capacity equal to \<open>i\<close>, every entry once;
  the older snapshots stay as they were. In every state reached from the constructor
  the current snapshot has as many locks as buckets.
\<close>

theorem MaybeResize_builds_fourfold_snapshot:
  "(ref_state s < length (ref_heap s) \<and>
    \<not> ref_resize_mutex s \<and>
    ref_state s = expected_state \<and>
    ref_size s > kLoadFactorThreshold * length (buckets (current s)) \<and>
    True \<notin> set (locks (current s)) \<longrightarrow>
      (\<exists>s'. MaybeResize hash s expected_state = Some s' \<and>
         ref_state s' = length (ref_heap s) \<and>
         ref_heap s' = ref_heap s @ [current s'] \<and>
         length (buckets (current s')) = 4 * length (buckets (current s)) \<and>
         length (locks (current s')) = length (buckets (current s')) \<and>
         True \<notin> set (locks (current s')) \<and>
         (\<forall>i < length (buckets (current s')).
            buckets (current s') ! i =
              filter (\<lambda>x. hash x mod length (buckets (current s')) = i)
                (concat (buckets (current s)))) \<and>
         mset (concat (buckets (current s'))) = mset (concat (buckets (current s))) \<and>
         ref_size s' = ref_size s \<and>
         \<not> ref_resize_mutex s')) \<and>
   (0 < initial_capacity \<longrightarrow>
      (\<exists>rets s'. Refinable_run hash initial_capacity cs = Some (rets, s') \<and>
         length (locks (current s')) = length (buckets (current s'))))"
proof -
  have "\<exists>rets s'. Refinable_run hash initial_capacity cs = Some (rets, s') \<and>
         length (locks (current s')) = length (buckets (current s'))"
    if "0 < initial_capacity"
  proof -
    from Refinable_run_table [OF that, of hash cs] obtain s' where
      r: "Refinable_run hash initial_capacity cs
            = Some (fst (table_exec hash 4 (replicate initial_capacity [], 0) cs), s')"
      and i: "Refinable_inv hash s'"
      by blast
    have "length (locks (current s')) = length (buckets (current s'))"
      using i unfolding Refinable_inv_def by (metis length_replicate)
    with r show ?thesis by blast
  qed
  then show ?thesis
    using MaybeResize_publishes [of s expected_state hash] by blast
qed

theorem MaybeResize_builds_fourfold_snapshot_witness:
  "(\<exists>s'. MaybeResize (\<lambda>x. x)
       \<lparr>ref_heap = [\<lparr>buckets = [[0, 1, 2, 3, 4::nat]], locks = [False]\<rparr>], ref_state = 0,
        ref_resize_mutex = False, ref_size = 5\<rparr> 0 = Some s' \<and>
      ref_state s' = 1 \<and>
      length (buckets (current s')) = 4 \<and>
      length (locks (current s')) = 4 \<and>
      buckets (current s') ! 0 = [0, 4] \<and>
      buckets (current s') ! 3 = [3] \<and>
      ref_size s' = 5) \<and>
   (\<exists>rets s'. Refinable_run (\<lambda>x. x) 1 [Add 0, Add 1, Add 2, Add 3, Add (4::nat)] = Some (rets, s') \<and>
      length (locks (current s')) = length (buckets (current s')))"
proof -
  let ?s = "\<lparr>ref_heap = [\<lparr>buckets = [[0, 1, 2, 3, 4::nat]], locks = [False]\<rparr>], ref_state = 0,
        ref_resize_mutex = False, ref_size = 5\<rparr>"
  have hyp: "ref_state ?s < length (ref_heap ?s) \<and>
    \<not> ref_resize_mutex ?s \<and>
    ref_state ?s = 0 \<and>
    ref_size ?s > kLoadFactorThreshold * length (buckets (current ?s)) \<and>
    True \<notin> set (locks (current ?s))"
    by (simp add: kLoadFactorThreshold_def current_def)
  have pos: "(0::nat) < 1"
    by simp
  note th = MaybeResize_builds_fourfold_snapshot
    [of ?s 0 "\<lambda>x. x" 1 "[Add 0, Add 1, Add 2, Add 3, Add (4::nat)]"]
  from th hyp obtain s' where s': "MaybeResize (\<lambda>x. x) ?s 0 = Some s'"
    "ref_state s' = length (ref_heap ?s)"
    "length (buckets (current s')) = 4 * length (buckets (current ?s))"
    "length (locks (current s')) = length (buckets (current s'))"
    "\<forall>i < length (buckets (current s')).
        buckets (current s') ! i =
          filter (\<lambda>x. x mod length (buckets (current s')) = i) (concat (buckets (current ?s)))"
    "ref_size s' = ref_size ?s"
    by blast
  have len: "length (buckets (current s')) = 4"
    using s'(3) by (simp add: current_def)
  have "buckets (current s') ! 0 = [0, 4]" "buckets (current s') ! 3 = [3]"
    using s'(5) len by (simp_all add: current_def)
  then have a: "\<exists>s'. MaybeResize (\<lambda>x. x) ?s 0 = Some s' \<and>
      ref_state s' = 1 \<and>
      length (buckets (current s')) = 4 \<and>
      length (locks (current s')) = 4 \<and>
      buckets (current s') ! 0 = [0, 4] \<and>
      buckets (current s') ! 3 = [3] \<and>
      ref_size s' = 5"
    using s'(1,2,4,6) len by simp
  from th pos have b: "\<exists>rets s'. Refinable_run (\<lambda>x. x) 1 [Add 0, Add 1, Add 2, Add 3, Add (4::nat)] = Some (rets, s') \<and>
      length (locks (current s')) = length (buckets (current s'))"
    by blast
  show ?thesis
    using a b by blast
qed

text \<open>
  C8. The striped set has as many locks as its initial capacity, and no operation
  that returns changes the lock vector. An operation on \<open>x\<close> takes the lock at the hash
  of \<open>x\<close> modulo the number of locks, whatever the length of the table: \<open>Contains\<close>
  and \<open>Remove\<close> wait exactly when that lock is held, and \<open>Add\<close> waits when it is.
  \<open>Resize\<close>, when the load factor is exceeded, doubles the table and leaves the
  locks as they were. So in every state reached from the constructor the number of
  locks is the initial capacity, the table has that many buckets times a power of two,
  and the lock of an element is the index of its bucket modulo the number of locks:
  after a growth one lock covers several buckets.
\<close>

theorem Striped_lock_count_fixed:
  "(0 < initial_capacity \<longrightarrow>
      (\<exists>s0. Striped_new initial_capacity = Some (s0 :: 'a HashSetStriped) \<and>
         length (str_locks s0) = initial_capacity)) \<and>
   (Striped_step (hash :: 'a \<Rightarrow> nat) s c = Some (r, s') \<longrightarrow> str_locks s' = str_locks s) \<and>
   (Striped_Contains hash s x = None) = (str_locks s ! (hash x mod length (str_locks s))) \<and>
   (Striped_Remove hash s x = None) = (str_locks s ! (hash x mod length (str_locks s))) \<and>
   (str_locks s ! (hash x mod length (str_locks s)) \<longrightarrow> Striped_Add hash s x = None) \<and>
   (Striped_inv hash t \<and> Striped_Size t > 4 * length (str_table t) \<longrightarrow>
      (\<exists>t'. Striped_Resize hash t = Some t' \<and>
         length (str_table t') = 2 * length (str_table t) \<and>
         str_locks t' = str_locks t)) \<and>
   (0 < initial_capacity \<longrightarrow>
      (\<exists>rets u. Striped_run hash initial_capacity cs = Some (rets, u) \<and>
         length (str_locks u) = initial_capacity \<and>
         (\<exists>k. length (str_table u) = initial_capacity * 2 ^ k) \<and>
         (\<forall>y. hash y mod length (str_locks u)
               = (hash y mod length (str_table u)) mod length (str_locks u))))"
proof -
  have new: "\<exists>s0. Striped_new initial_capacity = Some (s0 :: 'a HashSetStriped) \<and>
      length (str_locks s0) = initial_capacity"
    if "0 < initial_capacity"
    using that by (simp add: Striped_new_def)
  have resize: "\<exists>t'. Striped_Resize hash t = Some t' \<and>
         length (str_table t') = 2 * length (str_table t) \<and> str_locks t' = str_locks t"
    if "Striped_inv hash t" "Striped_Size t > 4 * length (str_table t)"
  proof -
    from Striped_Resize_preserves [OF that(1)] obtain t' where
      t': "Striped_Resize hash t = Some t'"
      "length (str_table t') =
           (if Striped_Size t > 4 * length (str_table t) then 2 * length (str_table t)
            else length (str_table t))"
      by blast
    show ?thesis
      using t' that(2) Striped_Resize_locks [OF t'(1)] by simp
  qed
  have run: "\<exists>rets u. Striped_run hash initial_capacity cs = Some (rets, u) \<and>
         length (str_locks u) = initial_capacity \<and>
         (\<exists>k. length (str_table u) = initial_capacity * 2 ^ k) \<and>
         (\<forall>y. hash y mod length (str_locks u)
               = (hash y mod length (str_table u)) mod length (str_locks u))"
    if pos: "0 < initial_capacity"
  proof -
    let ?s0 = "\<lparr>str_table = replicate initial_capacity [],
                 str_locks = replicate initial_capacity False,
                 str_resize_mutex = False, str_size = 0\<rparr> :: 'a HashSetStriped"
    have s0: "Striped_new initial_capacity = Some ?s0"
      using pos by (simp add: Striped_new_def)
    from Striped_run_table [OF pos, of hash cs] obtain u where
      u: "Striped_run hash initial_capacity cs
            = Some (fst (table_exec hash 2 (replicate initial_capacity [], 0) cs), u)"
      "Striped_view u = snd (table_exec hash 2 (replicate initial_capacity [], 0) cs)"
      by blast
    have ex: "Striped_exec hash ?s0 cs
        = Some (fst (table_exec hash 2 (replicate initial_capacity [], 0) cs), u)"
      using u(1) s0 by (simp add: Striped_run_def)
    have locks: "length (str_locks u) = initial_capacity"
      using Striped_exec_locks [OF ex] by simp
    have "table_exec hash 2 (replicate initial_capacity [], 0) cs
        = (fst (table_exec hash 2 (replicate initial_capacity [], 0) cs),
           (str_table u, str_size u))"
      using u(2) by (simp add: Striped_view_def prod_eq_iff)
    from table_exec_length [OF this] obtain k where
      k: "length (str_table u) = initial_capacity * 2 ^ k"
      by auto
    have "\<forall>y. hash y mod length (str_locks u)
               = (hash y mod length (str_table u)) mod length (str_locks u)"
      using k locks by (simp add: mod_mod_cancel)
    with u(1) locks k show ?thesis by blast
  qed
  show ?thesis
    using new resize run Striped_step_locks [where h = hash and s = s and c = c and r = r and s' = s']
      Striped_shard_selection [where h = hash and s = s and x = x]
    by blast
qed

theorem Striped_lock_count_fixed_witness:
  "(\<exists>rets u. Striped_run (\<lambda>x. x) 2 (map Add [0..<9]) = Some (rets, u) \<and>
      length (str_locks u) = 2 \<and> length (str_table u) = 4) \<and>
   (\<exists>t'. Striped_Resize (\<lambda>x. x)
       \<lparr>str_table = [[0, 1, 2, 3, 4::nat]], str_locks = [False], str_resize_mutex = False,
        str_size = 5\<rparr> = Some t' \<and>
      length (str_table t') = 2 \<and> str_locks t' = [False]) \<and>
   (\<exists>s'. Striped_step (\<lambda>x. x)
       \<lparr>str_table = [[0, 1, 2, 3, 4::nat]], str_locks = [False], str_resize_mutex = False,
        str_size = 5\<rparr> (Remove 3) = Some (Flag True, s') \<and>
      str_locks s' = [False]) \<and>
   Striped_Contains (\<lambda>x. x)
     \<lparr>str_table = [[0, 4], [1, 5::nat], [2], [3]], str_locks = [False, True],
      str_resize_mutex = False, str_size = 6\<rparr> 5 = None"
proof -
  let ?t = "\<lparr>str_table = [[0, 1, 2, 3, 4::nat]], str_locks = [False], str_resize_mutex = False,
        str_size = 5\<rparr>"
  let ?h = "\<lparr>str_table = [[0, 4], [1, 5::nat], [2], [3]], str_locks = [False, True],
      str_resize_mutex = False, str_size = 6\<rparr>"
  have pos: "(0::nat) < 2" by simp
  have inv: "Striped_inv (\<lambda>x. x) ?t \<and> Striped_Size ?t > 4 * length (str_table ?t)"
    by code_simp
  have len: "map_option (\<lambda>(r, u). length (str_table u)) (Striped_run (\<lambda>x. x) 2 (map Add [0..<9]))
      = Some 4"
    by code_simp
  have st: "map_option fst (Striped_step (\<lambda>x. x) ?t (Remove 3)) = Some (Flag True)"
    by code_simp
  then obtain s1 where s1: "Striped_step (\<lambda>x. x) ?t (Remove 3) = Some (Flag True, s1)"
    by auto
  have held: "str_locks ?h ! (5 mod length (str_locks ?h))"
    by code_simp
  note th = Striped_lock_count_fixed [of 2 "\<lambda>x. x" ?t "Remove 3" "Flag True" s1 5 ?t "map Add [0..<9]"]
  note th' = Striped_lock_count_fixed [of 2 "\<lambda>x. x" ?h "Remove 3" "Flag True" s1 5 ?t "map Add [0..<9]"]
  have a: "\<exists>rets u. Striped_run (\<lambda>x. x) 2 (map Add [0..<9]) = Some (rets, u) \<and>
      length (str_locks u) = 2 \<and> length (str_table u) = 4"
    using th pos len by auto
  have b: "\<exists>t'. Striped_Resize (\<lambda>x. x) ?t = Some t' \<and>
      length (str_table t') = 2 \<and> str_locks t' = [False]"
    using th inv by auto
  have c: "\<exists>s'. Striped_step (\<lambda>x. x) ?t (Remove 3) = Some (Flag True, s') \<and> str_locks s' = [False]"
    using th s1 by auto
  have d: "Striped_Contains (\<lambda>x. x) ?h 5 = None"
    using th' held by blast
  show ?thesis
    using a b c d by blast
qed

text \<open>
  C10. In every variant, constructed with a capacity of at least one and run
  single-threaded, the size counter is at most four times the capacity after the
  construction and after every completed operation.
\<close>

theorem load_factor_bounded:
  assumes "0 < initial_capacity"
  shows "(\<exists>rets s. Seq_run hash initial_capacity cs = Some (rets, s) \<and>
            Seq_Size s \<le> 4 * length (seq_table s)) \<and>
         (\<exists>rets s. Striped_run hash initial_capacity cs = Some (rets, s) \<and>
            Striped_Size s \<le> 4 * length (str_table s)) \<and>
         (\<exists>rets s. Refinable_run hash initial_capacity cs = Some (rets, s) \<and>
            Refinable_Size s \<le> 4 * length (buckets (current s)))"
proof -
  have load: "\<And>f. 2 \<le> f \<Longrightarrow>
      snd (snd (table_exec hash f (replicate initial_capacity [], 0) cs))
        \<le> 4 * length (fst (snd (table_exec hash f (replicate initial_capacity [], 0) cs)))"
  proof -
    fix f :: nat assume f: "2 \<le> f"
    obtain rs t n where e: "table_exec hash f (replicate initial_capacity [], 0) cs = (rs, (t, n))"
      by (metis prod.exhaust)
    have "n \<le> 4 * length t"
      using table_exec_load [OF _ _ f e] assms by simp
    then show "snd (snd (table_exec hash f (replicate initial_capacity [], 0) cs))
        \<le> 4 * length (fst (snd (table_exec hash f (replicate initial_capacity [], 0) cs)))"
      by (simp add: e)
  qed
  from Seq_run_table [OF assms, of hash cs] load [of 2] have "\<exists>rets s.
      Seq_run hash initial_capacity cs = Some (rets, s) \<and> Seq_Size s \<le> 4 * length (seq_table s)"
    by (auto simp: Seq_view_def Seq_Size_def prod_eq_iff)
  moreover from Striped_run_table [OF assms, of hash cs] load [of 2] have "\<exists>rets s.
      Striped_run hash initial_capacity cs = Some (rets, s) \<and>
      Striped_Size s \<le> 4 * length (str_table s)"
    by (auto simp: Striped_view_def Striped_Size_def prod_eq_iff)
  moreover from Refinable_run_table [OF assms, of hash cs] load [of 4] have "\<exists>rets s.
      Refinable_run hash initial_capacity cs = Some (rets, s) \<and>
      Refinable_Size s \<le> 4 * length (buckets (current s))"
    by (auto simp: Refinable_view_def Refinable_Size_def prod_eq_iff)
  ultimately show ?thesis by blast
qed

theorem load_factor_bounded_witness:
  "(\<exists>rets s. Seq_run (\<lambda>x. x) 1 [Add 0, Add 1, Add 2, Add 3, Add (4::nat)] = Some (rets, s) \<and>
      Seq_Size s = 5 \<and> length (seq_table s) = 2 \<and> Seq_Size s \<le> 4 * length (seq_table s)) \<and>
   (\<exists>rets s. Striped_run (\<lambda>x. x) 1 [Add 0, Add 1, Add 2, Add 3, Add (4::nat)] = Some (rets, s) \<and>
      Striped_Size s = 5 \<and> length (str_table s) = 2 \<and> Striped_Size s \<le> 4 * length (str_table s)) \<and>
   (\<exists>rets s. Refinable_run (\<lambda>x. x) 1 [Add 0, Add 1, Add 2, Add 3, Add (4::nat)] = Some (rets, s) \<and>
      Refinable_Size s = 5 \<and> length (buckets (current s)) = 4 \<and>
      Refinable_Size s \<le> 4 * length (buckets (current s)))"
proof -
  let ?cs = "[Add 0, Add 1, Add 2, Add 3, Add (4::nat)]"
  have pos: "(0::nat) < 1" by simp
  have a: "map_option (\<lambda>(r, s). (length (seq_table s), Seq_Size s)) (Seq_run (\<lambda>x. x) 1 ?cs)
      = Some (2, 5)"
    by code_simp
  have b: "map_option (\<lambda>(r, s). (length (str_table s), Striped_Size s)) (Striped_run (\<lambda>x. x) 1 ?cs)
      = Some (2, 5)"
    by code_simp
  have c: "map_option (\<lambda>(r, s). (length (buckets (current s)), Refinable_Size s)) (Refinable_run (\<lambda>x. x) 1 ?cs)
      = Some (4, 5)"
    by code_simp
  from load_factor_bounded [OF pos, of "\<lambda>x. x" ?cs] a b c
  show ?thesis by auto
qed

end
